theory Spec2Isabelle
  imports Main "HOL-Library.AList" "HOL-Library.Sublist"
begin

text \<open>
  A model of \<^verbatim>\<open>create-sid-react-app\<close>: the command-line entry point \<^verbatim>\<open>bin/index.ts\<close>
  and the scaffolder \<^verbatim>\<open>createApp\<close>. The scaffolder is a sequence of calls into the Node
  runtime and the \<^verbatim>\<open>fs-extra\<close> library; the model gives each of those calls a meaning
  over an explicit process state (a file tree, the working directory and the trace of
  observable events) and composes them in the order of the source. Failures are values:
  every call returns \<open>Inl\<close> of an error or \<open>Inr\<close> of its result, and a failure ends the
  run as the rejected promise does.
\<close>

section \<open>POSIX paths\<close>

text \<open>
  The functions of Node's \<^verbatim>\<open>path\<close> module that the source calls, in their POSIX variant:
  \<^verbatim>\<open>path.resolve\<close>, \<^verbatim>\<open>path.join\<close> and \<^verbatim>\<open>path.basename\<close>. Paths are strings; a path is
  cut at every \<^verbatim>\<open>/\<close> into segments, and normalisation drops empty and \<^verbatim>\<open>.\<close> segments and
  lets \<^verbatim>\<open>..\<close> cancel the segment before it. \<open>fs_path\<close> is the list of segments at which
  the file system finds a path given to a file-system call, a relative path counting from
  the working directory. It resolves \<^verbatim>\<open>..\<close> lexically, which is what the operating system
  does when the directories on the way exist and none is a symbolic link.
\<close>

fun split_from :: "string \<Rightarrow> string \<Rightarrow> string list" where
  "split_from cur [] = [rev cur]"
| "split_from cur (c # cs) =
     (if c = CHR ''/'' then rev cur # split_from [] cs else split_from (c # cur) cs)"

definition split_sep :: "string \<Rightarrow> string list" where
  "split_sep p = split_from [] p"

fun join_with :: "string \<Rightarrow> string list \<Rightarrow> string" where
  "join_with d [] = []"
| "join_with d [s] = s"
| "join_with d (s # t # ss) = s @ d @ join_with d (t # ss)"

definition join_sep :: "string list \<Rightarrow> string" where
  "join_sep segs = join_with ''/'' segs"

definition norm_step :: "bool \<Rightarrow> string list \<Rightarrow> string \<Rightarrow> string list" where
  "norm_step allowAboveRoot st seg =
     (if seg = [] \<or> seg = ''.'' then st
      else if seg = ''..'' then
        (case st of
           [] \<Rightarrow> (if allowAboveRoot then [''..''] else [])
         | lastSeg # below \<Rightarrow>
             (if lastSeg = ''..'' then (if allowAboveRoot then ''..'' # st else st) else below))
      else seg # st)"

definition norm_segs :: "bool \<Rightarrow> string list \<Rightarrow> string list" where
  "norm_segs allowAboveRoot segs = rev (foldl (norm_step allowAboveRoot) [] segs)"

definition normalizeString :: "string \<Rightarrow> bool \<Rightarrow> string" where
  "normalizeString p allowAboveRoot = join_sep (norm_segs allowAboveRoot (split_sep p))"

definition isAbsolute :: "string \<Rightarrow> bool" where
  "isAbsolute p = (case p of [] \<Rightarrow> False | c # _ \<Rightarrow> c = CHR ''/'')"

fun resolve_loop :: "string list \<Rightarrow> string \<Rightarrow> string \<times> bool" where
  "resolve_loop [] resolvedPath = (resolvedPath, False)"
| "resolve_loop (p # ps) resolvedPath =
     (if p = [] then resolve_loop ps resolvedPath
      else if isAbsolute p then (p @ ''/'' @ resolvedPath, True)
      else resolve_loop ps (p @ ''/'' @ resolvedPath))"

definition path_resolve :: "string \<Rightarrow> string list \<Rightarrow> string" where
  "path_resolve cwd args =
     (case resolve_loop (rev args @ [cwd]) [] of
        (resolvedPath, resolvedAbsolute) \<Rightarrow>
          (let n = normalizeString resolvedPath (\<not> resolvedAbsolute)
           in if resolvedAbsolute then ''/'' @ n else if n \<noteq> [] then n else ''.''))"

definition path_normalize :: "string \<Rightarrow> string" where
  "path_normalize p =
     (if p = [] then ''.''
      else
        (let absolute = isAbsolute p;
             trailingSeparator = (last p = CHR ''/'');
             n = normalizeString p (\<not> absolute)
         in if n = [] then (if absolute then ''/'' else if trailingSeparator then ''./'' else ''.'')
            else (if absolute then ''/'' else []) @ n @ (if trailingSeparator then ''/'' else [])))"

definition path_join :: "string list \<Rightarrow> string" where
  "path_join args =
     (case filter (\<lambda>a. a \<noteq> []) args of
        [] \<Rightarrow> ''.''
      | parts \<Rightarrow> path_normalize (join_sep parts))"

definition path_basename :: "string \<Rightarrow> string" where
  "path_basename p =
     rev (takeWhile (\<lambda>c. c \<noteq> CHR ''/'') (dropWhile (\<lambda>c. c = CHR ''/'') (rev p)))"

definition fs_path :: "string \<Rightarrow> string \<Rightarrow> string list" where
  "fs_path cwd p =
     (case resolve_loop [p, cwd] [] of
        (resolvedPath, resolvedAbsolute) \<Rightarrow> norm_segs (\<not> resolvedAbsolute) (split_sep resolvedPath))"

section \<open>JSON values and serialisation\<close>

text \<open>
  Parsed JSON. A number is kept as the text JavaScript prints for it, an object as the list
  of its properties in JavaScript's enumeration order. \<open>JSON_stringify\<close> is
  \<^verbatim>\<open>JSON.stringify(value, null, spaces)\<close> for a numeric \<^verbatim>\<open>spaces\<close>; strings are sequences of
  8-bit characters. Parsing is left to the runtime: it is the field \<open>JSON_parse\<close> of the
  environment below.
\<close>

datatype json =
    JNull
  | JBool bool
  | JNum string
  | JStr string
  | JArr "json list"
  | JObj "(string \<times> json) list"

definition hex_digit :: "nat \<Rightarrow> char" where
  "hex_digit n = ''0123456789abcdef'' ! (n mod 16)"

definition escape_char :: "char \<Rightarrow> string" where
  "escape_char c =
     (if c = CHR 0x22 then [CHR 0x5C, CHR 0x22]
      else if c = CHR 0x5C then [CHR 0x5C, CHR 0x5C]
      else if c = CHR 0x08 then [CHR 0x5C, CHR ''b'']
      else if c = CHR 0x0C then [CHR 0x5C, CHR ''f'']
      else if c = CHR 0x0A then [CHR 0x5C, CHR ''n'']
      else if c = CHR 0x0D then [CHR 0x5C, CHR ''r'']
      else if c = CHR 0x09 then [CHR 0x5C, CHR ''t'']
      else if (of_char c :: nat) < 32 then
        [CHR 0x5C, CHR ''u'', CHR ''0'', CHR ''0'',
         hex_digit (of_char c div 16), hex_digit (of_char c mod 16)]
      else [c])"

definition quote :: "string \<Rightarrow> string" where
  "quote s = [CHR 0x22] @ concat (map escape_char s) @ [CHR 0x22]"

definition line_break :: "nat \<Rightarrow> nat \<Rightarrow> string" where
  "line_break gap lvl =
     (if gap = 0 then [] else CHR 0x0A # replicate (min gap 10 * lvl) CHR '' '')"

fun stringify_at :: "nat \<Rightarrow> nat \<Rightarrow> json \<Rightarrow> string" where
  "stringify_at gap lvl JNull = ''null''"
| "stringify_at gap lvl (JBool b) = (if b then ''true'' else ''false'')"
| "stringify_at gap lvl (JNum n) = n"
| "stringify_at gap lvl (JStr s) = quote s"
| "stringify_at gap lvl (JArr xs) =
     (if xs = [] then ''[]''
      else ''['' @ line_break gap (Suc lvl)
        @ join_with ('','' @ line_break gap (Suc lvl)) (map (stringify_at gap (Suc lvl)) xs)
        @ line_break gap lvl @ '']'')"
| "stringify_at gap lvl (JObj kvs) =
     (if kvs = [] then ''{}''
      else ''{'' @ line_break gap (Suc lvl)
        @ join_with ('','' @ line_break gap (Suc lvl))
            (map (\<lambda>kv. quote (fst kv) @ (if gap = 0 then '':'' else '': '')
                        @ stringify_at gap (Suc lvl) (snd kv)) kvs)
        @ line_break gap lvl @ ''}'')"

definition JSON_stringify :: "json \<Rightarrow> nat \<Rightarrow> string" where
  "JSON_stringify v spaces = stringify_at spaces 0 v"

section \<open>File system\<close>

text \<open>
  The file system is a tree: a file with its content, or a directory with its named
  entries (symbolic links are not modelled). \<open>lookup\<close> follows a list of segments from
  the root.

  \<open>copy_node\<close> is the tree walk of \<^verbatim>\<open>fs.copy\<close> with its default options
  (\<^verbatim>\<open>overwrite: true\<close>, \<^verbatim>\<open>errorOnExist: false\<close>, no filter): it receives the source node
  and what is at the destination, and returns what is at the destination afterwards. A
  file replaces a file, a directory is merged into a directory entry by entry, and a file
  meeting a directory (or a directory meeting a file) is an error. The walk stops at the
  first error and keeps what it has written so far. \<open>modify_at\<close> applies such a function
  at a path, creating the missing directories on the way as \<^verbatim>\<open>mkdirs\<close> does; a file on
  the way is \<^verbatim>\<open>ENOTDIR\<close>. \<open>write_at\<close> is \<^verbatim>\<open>fs.writeFile\<close>: it creates or replaces a file
  whose parent directory exists.
\<close>

datatype node = File string | Dir "(string \<times> node) list"

datatype error =
    ENOENT
  | ENOTDIR
  | EISDIR
  | CopySamePath
  | CopyIntoSelf
  | CopyDirOverNonDir
  | CopyNonDirOverDir
  | SyntaxError
  | TypeError
  | ExecError nat

fun lookup :: "node \<Rightarrow> string list \<Rightarrow> node option" where
  "lookup n [] = Some n"
| "lookup (File c) (s # ss) = None"
| "lookup (Dir es) (s # ss) =
     (case map_of es s of None \<Rightarrow> None | Some child \<Rightarrow> lookup child ss)"

fun copy_node :: "node \<Rightarrow> node option \<Rightarrow> error option \<times> node"
  and copy_children ::
    "(string \<times> node) list \<Rightarrow> (string \<times> node) list \<Rightarrow> error option \<times> (string \<times> node) list"
where
  "copy_node (File c) None = (None, File c)"
| "copy_node (File c) (Some (File old)) = (None, File c)"
| "copy_node (File c) (Some (Dir ds)) = (Some CopyNonDirOverDir, Dir ds)"
| "copy_node (Dir es) None = (case copy_children es [] of (e, ds') \<Rightarrow> (e, Dir ds'))"
| "copy_node (Dir es) (Some (File old)) = (Some CopyDirOverNonDir, File old)"
| "copy_node (Dir es) (Some (Dir ds)) =
     (case copy_children es ds of (e, ds') \<Rightarrow> (e, Dir ds'))"
| "copy_children [] ds = (None, ds)"
| "copy_children (entry # es) ds =
     (case copy_node (snd entry) (map_of ds (fst entry)) of
        (Some e, child') \<Rightarrow> (Some e, AList.update (fst entry) child' ds)
      | (None, child') \<Rightarrow> copy_children es (AList.update (fst entry) child' ds))"

fun create_at ::
  "string list \<Rightarrow> (node option \<Rightarrow> error option \<times> node) \<Rightarrow> error option \<times> node" where
  "create_at [] f = f None"
| "create_at (s # ss) f = (case create_at ss f of (e, n) \<Rightarrow> (e, Dir [(s, n)]))"

fun modify_at ::
  "string list \<Rightarrow> (node option \<Rightarrow> error option \<times> node) \<Rightarrow> node \<Rightarrow> error option \<times> node" where
  "modify_at [] f n = f (Some n)"
| "modify_at (s # ss) f (File c) = (Some ENOTDIR, File c)"
| "modify_at (s # ss) f (Dir es) =
     (case (case map_of es s of None \<Rightarrow> create_at ss f | Some child \<Rightarrow> modify_at ss f child) of
        (e, child') \<Rightarrow> (e, Dir (AList.update s child' es)))"

fun write_at :: "string list \<Rightarrow> string \<Rightarrow> node \<Rightarrow> error + node" where
  "write_at [] c (File old) = Inr (File c)"
| "write_at [] c (Dir es) = Inl EISDIR"
| "write_at (s # ss) c (File old) = Inl ENOTDIR"
| "write_at (s # ss) c (Dir es) =
     (case map_of es s of
        None \<Rightarrow> (if ss = [] then Inr (Dir (AList.update s (File c) es)) else Inl ENOENT)
      | Some child \<Rightarrow>
          (case write_at ss c child of
             Inl e \<Rightarrow> Inl e
           | Inr child' \<Rightarrow> Inr (Dir (AList.update s child' es))))"

section \<open>Process state and runtime primitives\<close>

text \<open>
  The state of the process is the file tree, the working directory and the trace of what
  the run did that can be observed from outside: lines printed (with the \<^verbatim>\<open>chalk\<close> style
  applied), changes of the working directory, and child processes spawned (with their
  command and working directory).

  The environment holds what the source takes from its installation and its runtime: the
  directory of the compiled module (\<^verbatim>\<open>__dirname\<close>), \<^verbatim>\<open>JSON.parse\<close>, and the behaviour of a
  child process, which maps the command, the working directory and the file tree it
  starts in to its exit status and the file tree it leaves.

  \<open>fs_copy\<close> is \<^verbatim>\<open>fs.copy(src, dest)\<close>: the checks of \<^verbatim>\<open>checkPaths\<close> come first and change
  nothing when they fail; the source tree is the one present when the copy starts.
  \<open>fs_readJson\<close> and \<open>fs_writeJson\<close> are those of \<^verbatim>\<open>fs-extra\<close> (\<^verbatim>\<open>jsonfile\<close>): reading
  strips a byte order mark, writing appends a final newline. \<open>set_name\<close> is the
  assignment \<^verbatim>\<open>pkgJson.name = appName\<close> as far as serialisation can see it: on an object it
  sets or appends the property, on an array it is lost, on \<^verbatim>\<open>null\<close> and on a primitive it
  throws (the module is in strict mode). \<open>execAsync\<close> fails exactly when the child's
  status is not zero.
\<close>

datatype style = Cyan | Green | Yellow | Blue | Bold

datatype event =
    Print style string
  | Chdir string
  | Spawn string string

record world =
  root :: node
  cwd :: string
  events :: "event list"

record env =
  module_dirname :: string
  JSON_parse :: "string \<Rightarrow> json option"
  child_process :: "string \<Rightarrow> string \<Rightarrow> node \<Rightarrow> nat \<times> node"

type_synonym 'a io = "world \<Rightarrow> (error + 'a) \<times> world"

definition bind :: "'a io \<Rightarrow> ('a \<Rightarrow> 'b io) \<Rightarrow> 'b io" where
  "bind m f = (\<lambda>w. case m w of (Inl e, w') \<Rightarrow> (Inl e, w') | (Inr x, w') \<Rightarrow> f x w')"

definition console_log :: "style \<Rightarrow> string \<Rightarrow> unit io" where
  "console_log st msg = (\<lambda>w. (Inr (), w\<lparr>events := events w @ [Print st msg]\<rparr>))"

definition resolve_io :: "string list \<Rightarrow> string io" where
  "resolve_io args = (\<lambda>w. (Inr (path_resolve (cwd w) args), w))"

definition is_dir :: "node \<Rightarrow> bool" where
  "is_dir n = (case n of Dir es \<Rightarrow> True | File c \<Rightarrow> False)"

definition fs_copy :: "string \<Rightarrow> string \<Rightarrow> unit io" where
  "fs_copy src dest =
     (\<lambda>w. let s = fs_path (cwd w) src; d = fs_path (cwd w) dest in
        if src = [] then (Inl ENOENT, w)
        else
          (case lookup (root w) s of
             None \<Rightarrow> (Inl ENOENT, w)
           | Some tree \<Rightarrow>
               if dest = [] then (Inl ENOENT, w)
               else if s = d then (Inl CopySamePath, w)
               else if is_dir tree \<and> prefix s d then (Inl CopyIntoSelf, w)
               else
                 (case modify_at d (copy_node tree) (root w) of
                    (Some e, r) \<Rightarrow> (Inl e, w\<lparr>root := r\<rparr>)
                  | (None, r) \<Rightarrow> (Inr (), w\<lparr>root := r\<rparr>))))"

definition stripBom :: "string \<Rightarrow> string" where
  "stripBom content =
     (if take 3 content = [CHR 0xEF, CHR 0xBB, CHR 0xBF] then drop 3 content else content)"

definition fs_readJson :: "env \<Rightarrow> string \<Rightarrow> json io" where
  "fs_readJson rt file =
     (\<lambda>w. if file = [] then (Inl ENOENT, w)
        else
          (case lookup (root w) (fs_path (cwd w) file) of
             None \<Rightarrow> (Inl ENOENT, w)
           | Some (Dir es) \<Rightarrow> (Inl EISDIR, w)
           | Some (File content) \<Rightarrow>
               (case JSON_parse rt (stripBom content) of
                  None \<Rightarrow> (Inl SyntaxError, w)
                | Some obj \<Rightarrow> (Inr obj, w))))"

definition fs_writeJson :: "string \<Rightarrow> json \<Rightarrow> nat \<Rightarrow> unit io" where
  "fs_writeJson file obj spaces =
     (\<lambda>w. if file = [] then (Inl ENOENT, w)
        else
          (case write_at (fs_path (cwd w) file) (JSON_stringify obj spaces @ [CHR 0x0A]) (root w) of
             Inl e \<Rightarrow> (Inl e, w)
           | Inr r \<Rightarrow> (Inr (), w\<lparr>root := r\<rparr>)))"

definition set_name :: "json \<Rightarrow> string \<Rightarrow> error + json" where
  "set_name pkgJson appName =
     (case pkgJson of
        JObj props \<Rightarrow> Inr (JObj (AList.update ''name'' (JStr appName) props))
      | JArr items \<Rightarrow> Inr (JArr items)
      | _ \<Rightarrow> Inl TypeError)"

definition lift :: "error + 'a \<Rightarrow> 'a io" where
  "lift r = (\<lambda>w. (r, w))"

definition process_chdir :: "string \<Rightarrow> unit io" where
  "process_chdir directory =
     (\<lambda>w. if directory = [] then (Inl ENOENT, w)
        else
          (let d = fs_path (cwd w) directory in
           case lookup (root w) d of
             None \<Rightarrow> (Inl ENOENT, w)
           | Some (File c) \<Rightarrow> (Inl ENOTDIR, w)
           | Some (Dir es) \<Rightarrow>
               (Inr (), w\<lparr>cwd := ''/'' @ join_sep d,
                           events := events w @ [Chdir (''/'' @ join_sep d)]\<rparr>)))"

definition execAsync :: "env \<Rightarrow> string \<Rightarrow> unit io" where
  "execAsync rt command =
     (\<lambda>w. case child_process rt command (cwd w) (root w) of
        (status, r) \<Rightarrow>
          (if status = 0 then Inr () else Inl (ExecError status),
           w\<lparr>root := r, events := events w @ [Spawn command (cwd w)]\<rparr>))"

section \<open>The scaffolder\<close>

text \<open>
  \<^verbatim>\<open>createApp(projectName, targetDir)\<close>, cut into the four blocks of its body: the copy of
  the template (source lines 16 to 18), the manifest patch (20 to 24), the change of
  directory and the install (26 to 32), and the closing lines (34 and 35).
  \<open>program_action\<close> is the action registered in \<^verbatim>\<open>bin/index.ts\<close>, and \<open>run_cli\<close> the
  process around it: exit code 0 when the action's promise resolves, 1 when it rejects.
\<close>

definition check_mark :: string where
  "check_mark = [CHR 0xE2, CHR 0x9C, CHR 0x94]"

definition copy_template :: "env \<Rightarrow> string \<Rightarrow> unit io" where
  "copy_template rt targetDir =
     bind (resolve_io [module_dirname rt, ''../../template'']) (\<lambda>templateDir.
     bind (fs_copy templateDir targetDir) (\<lambda>_.
     console_log Green (check_mark @ '' Template copied'')))"

definition patch_manifest :: "env \<Rightarrow> string \<Rightarrow> unit io" where
  "patch_manifest rt targetDir =
     (let pkgJsonPath = path_join [targetDir, ''package.json''] in
      bind (fs_readJson rt pkgJsonPath) (\<lambda>pkgJson.
      let appName = path_basename targetDir in
      bind (lift (set_name pkgJson appName)) (\<lambda>pkgJson'.
      fs_writeJson pkgJsonPath pkgJson' 2)))"

definition install_dependencies :: "env \<Rightarrow> string \<Rightarrow> unit io" where
  "install_dependencies rt targetDir =
     bind (process_chdir targetDir) (\<lambda>_.
     bind (console_log Yellow ''Installing dependencies...'') (\<lambda>_.
     bind (execAsync rt ''npm install'') (\<lambda>_.
     console_log Green (check_mark @ '' Dependencies installed''))))"

definition report_done :: "string \<Rightarrow> unit io" where
  "report_done projectName =
     bind (console_log Blue ([CHR 0x0A] @ ''All done! Run the following:'')) (\<lambda>_.
     console_log Bold ([CHR 0x0A] @ ''cd '' @ projectName @ '' && npm run dev'' @ [CHR 0x0A]))"

definition createApp :: "env \<Rightarrow> string \<Rightarrow> string \<Rightarrow> unit io" where
  "createApp rt projectName targetDir =
     bind (console_log Cyan ([CHR 0x0A] @ ''Creating project: '' @ projectName)) (\<lambda>_.
     bind (copy_template rt targetDir) (\<lambda>_.
     bind (patch_manifest rt targetDir) (\<lambda>_.
     bind (install_dependencies rt targetDir) (\<lambda>_.
     report_done projectName))))"

definition program_action :: "env \<Rightarrow> string \<Rightarrow> unit io" where
  "program_action rt projectName =
     (\<lambda>w. let targetDir = path_resolve (cwd w) [cwd w, projectName]
          in createApp rt targetDir projectName w)"

definition exit_code :: "(error + unit) \<Rightarrow> nat" where
  "exit_code r = (case r of Inl e \<Rightarrow> 1 | Inr u \<Rightarrow> 0)"

definition run_cli :: "env \<Rightarrow> string \<Rightarrow> world \<Rightarrow> nat \<times> world" where
  "run_cli rt projectName w =
     (case program_action rt projectName w of (r, w') \<Rightarrow> (exit_code r, w'))"

section \<open>Observations on states and runs\<close>

text \<open>
  What the statements below say about a state or a run: the content of the file at a
  path, whether a path is a directory, the events a run added to the trace, and the paths
  the run works on. \<open>wf_node\<close> says that no directory lists a name twice.
  \<open>preserves_files\<close> is an assumption on the environment: a child process removes no file
  or directory that exists when it starts and changes no file's content (it may add
  files). \<open>transcript\<close> is the trace of a run in which every step succeeds.
\<close>

definition file_at :: "node \<Rightarrow> string list \<Rightarrow> string option" where
  "file_at t p = (case lookup t p of Some (File c) \<Rightarrow> Some c | _ \<Rightarrow> None)"

definition dir_at :: "node \<Rightarrow> string list \<Rightarrow> bool" where
  "dir_at t p = (case lookup t p of Some (Dir es) \<Rightarrow> True | _ \<Rightarrow> False)"

fun wf_node :: "node \<Rightarrow> bool" where
  "wf_node (File c) = True"
| "wf_node (Dir es) = (distinct (map fst es) \<and> (\<forall>e \<in> set es. wf_node (snd e)))"

fun lookup_opt :: "node option \<Rightarrow> string list \<Rightarrow> node option" where
  "lookup_opt None p = None"
| "lookup_opt (Some n) p = lookup n p"

fun children_of :: "node option \<Rightarrow> (string \<times> node) list" where
  "children_of None = []"
| "children_of (Some (File c)) = []"
| "children_of (Some (Dir ds)) = ds"

definition new_events :: "world \<Rightarrow> world \<Rightarrow> event list" where
  "new_events w w' = drop (length (events w)) (events w')"

definition target_path :: "world \<Rightarrow> string \<Rightarrow> string" where
  "target_path w targetDir = ''/'' @ join_sep (fs_path (cwd w) targetDir)"

definition template_path :: "env \<Rightarrow> world \<Rightarrow> string list" where
  "template_path rt w =
     fs_path (cwd w) (path_resolve (cwd w) [module_dirname rt, ''../../template''])"

definition manifest_path :: "world \<Rightarrow> string \<Rightarrow> string list" where
  "manifest_path w targetDir = fs_path (cwd w) (path_join [targetDir, ''package.json''])"

definition preserves_files :: "env \<Rightarrow> bool" where
  "preserves_files rt =
     (\<forall>command dir t p.
        (dir_at t p \<longrightarrow> dir_at (snd (child_process rt command dir t)) p) \<and>
        (\<forall>c. file_at t p = Some c \<longrightarrow> file_at (snd (child_process rt command dir t)) p = Some c))"

definition transcript :: "string \<Rightarrow> string \<Rightarrow> event list" where
  "transcript projectName dir =
     [Print Cyan ([CHR 0x0A] @ ''Creating project: '' @ projectName),
      Print Green (check_mark @ '' Template copied''),
      Chdir dir,
      Print Yellow ''Installing dependencies...'',
      Spawn ''npm install'' dir,
      Print Green (check_mark @ '' Dependencies installed''),
      Print Blue ([CHR 0x0A] @ ''All done! Run the following:''),
      Print Bold ([CHR 0x0A] @ ''cd '' @ projectName @ '' && npm run dev'' @ [CHR 0x0A])]"

section \<open>A concrete installation\<close>

text \<open>
  The tool installed under \<^verbatim>\<open>/opt/tool\<close> with a small template, and a working directory
  \<^verbatim>\<open>/work\<close> that already holds a directory \<^verbatim>\<open>demo\<close>. The child process exits with a given
  status and touches nothing. \<open>bare_world\<close> is a machine without the tool's template.
\<close>

definition demo_manifest :: json where
  "demo_manifest = JObj [(''name'', JStr ''template''), (''version'', JStr ''0.0.0'')]"

definition demo_manifest_text :: string where
  "demo_manifest_text = JSON_stringify demo_manifest 4"

definition demo_template :: node where
  "demo_template =
     Dir [(''index.html'', File ''<html></html>''),
          (''package.json'', File demo_manifest_text),
          (''src'', Dir [(''main.tsx'', File ''render()'')])]"

definition demo_root :: node where
  "demo_root =
     Dir [(''opt'', Dir [(''tool'', Dir [(''dist'', Dir [(''src'', Dir [])]),
                                           (''template'', demo_template)])]),
          (''work'', Dir [(''demo'', Dir [(''package.json'', File ''old''),
                                           (''notes.txt'', File ''keep me'')])])]"

definition demo_env :: "nat \<Rightarrow> env" where
  "demo_env status =
     \<lparr> module_dirname = ''/opt/tool/dist/src'',
       JSON_parse = (\<lambda>s. if s = demo_manifest_text then Some demo_manifest else None),
       child_process = (\<lambda>command dir r. (status, r)) \<rparr>"

definition demo_world :: world where
  "demo_world = \<lparr> root = demo_root, cwd = ''/work'', events = [] \<rparr>"

definition bare_world :: world where
  "bare_world = \<lparr> root = Dir [(''work'', Dir [])], cwd = ''/work'', events = [] \<rparr>"

text \<open>
  \<open>read_json\<close> is a reader for a fragment of JSON: objects with distinct keys that are
  not digit strings, arrays, strings with the two-character escapes, \<^verbatim>\<open>null\<close>,
  \<^verbatim>\<open>true\<close>, \<^verbatim>\<open>false\<close> and integers of at most 15 digits in the form JavaScript prints
  them. On such a text it returns what \<^verbatim>\<open>JSON.parse\<close> returns; on any other text it
  returns nothing. Its first argument bounds the number of nested calls.
  \<open>demo_reader\<close> is the installation above with this reader as its parser.
\<close>

definition is_ws :: "char \<Rightarrow> bool" where
  "is_ws c = (c = CHR '' '' \<or> c = CHR 0x0A \<or> c = CHR 0x0D \<or> c = CHR 0x09)"

definition skip_ws :: "string \<Rightarrow> string" where
  "skip_ws s = dropWhile is_ws s"

definition is_digit :: "char \<Rightarrow> bool" where
  "is_digit c = (c \<in> set ''0123456789'')"

definition unescape :: "char \<Rightarrow> char option" where
  "unescape e =
     (if e = CHR 0x22 then Some (CHR 0x22)
      else if e = CHR 0x5C then Some (CHR 0x5C)
      else if e = CHR ''/'' then Some (CHR ''/'')
      else if e = CHR ''b'' then Some (CHR 0x08)
      else if e = CHR ''f'' then Some (CHR 0x0C)
      else if e = CHR ''n'' then Some (CHR 0x0A)
      else if e = CHR ''r'' then Some (CHR 0x0D)
      else if e = CHR ''t'' then Some (CHR 0x09)
      else None)"

fun read_string :: "string \<Rightarrow> (string \<times> string) option" where
  "read_string [] = None"
| "read_string (c # cs) =
     (if c = CHR 0x22 then Some ([], cs)
      else if c = CHR 0x5C then
        (case cs of
           [] \<Rightarrow> None
         | e # r \<Rightarrow>
             (case unescape e of
                None \<Rightarrow> None
              | Some x \<Rightarrow>
                  (case read_string r of
                     None \<Rightarrow> None
                   | Some (str, r') \<Rightarrow> Some (x # str, r'))))
      else if (of_char c :: nat) < 32 then None
      else
        (case read_string cs of
           None \<Rightarrow> None
         | Some (str, r') \<Rightarrow> Some (c # str, r')))"

definition read_number :: "string \<Rightarrow> (string \<times> string) option" where
  "read_number s =
     (let negative = (take 1 s = ''-'');
          body = (if negative then drop 1 s else s);
          digits = takeWhile is_digit body;
          rest = dropWhile is_digit body
      in if digits = [] \<or> 15 < length digits then None
         else if 1 < length digits \<and> take 1 digits = ''0'' then None
         else if negative \<and> digits = ''0'' then None
         else if take 1 rest = ''.'' \<or> take 1 rest = ''e'' \<or> take 1 rest = ''E'' then None
         else Some ((if negative then ''-'' else []) @ digits, rest))"

fun read_value :: "string \<Rightarrow> string \<Rightarrow> (json \<times> string) option"
  and read_elements :: "string \<Rightarrow> string \<Rightarrow> (json list \<times> string) option"
  and read_members :: "string \<Rightarrow> string \<Rightarrow> ((string \<times> json) list \<times> string) option"
where
  "read_value [] s = None"
| "read_value (f # fuel) s =
     (let t = skip_ws s in
      if take 1 t = ''{'' then
        (if take 1 (skip_ws (drop 1 t)) = ''}'' then Some (JObj [], drop 1 (skip_ws (drop 1 t)))
         else
           (case read_members fuel (drop 1 t) of
              None \<Rightarrow> None
            | Some (members, r) \<Rightarrow> Some (JObj members, r)))
      else if take 1 t = ''['' then
        (if take 1 (skip_ws (drop 1 t)) = '']'' then Some (JArr [], drop 1 (skip_ws (drop 1 t)))
         else
           (case read_elements fuel (drop 1 t) of
              None \<Rightarrow> None
            | Some (elements, r) \<Rightarrow> Some (JArr elements, r)))
      else if take 1 t = [CHR 0x22] then
        (case read_string (drop 1 t) of
           None \<Rightarrow> None
         | Some (str, r) \<Rightarrow> Some (JStr str, r))
      else if take 4 t = ''null'' then Some (JNull, drop 4 t)
      else if take 4 t = ''true'' then Some (JBool True, drop 4 t)
      else if take 5 t = ''false'' then Some (JBool False, drop 5 t)
      else
        (case read_number t of
           None \<Rightarrow> None
         | Some (n, r) \<Rightarrow> Some (JNum n, r)))"
| "read_elements [] s = None"
| "read_elements (f # fuel) s =
     (case read_value fuel s of
        None \<Rightarrow> None
      | Some (v, r) \<Rightarrow>
          (let t = skip_ws r in
           if take 1 t = '']'' then Some ([v], drop 1 t)
           else if take 1 t = '','' then
             (case read_elements fuel (drop 1 t) of
                None \<Rightarrow> None
              | Some (vs, r') \<Rightarrow> Some (v # vs, r'))
           else None))"
| "read_members [] s = None"
| "read_members (f # fuel) s =
     (let t = skip_ws s in
      if take 1 t \<noteq> [CHR 0x22] then None
      else
        (case read_string (drop 1 t) of
           None \<Rightarrow> None
         | Some (k, r1) \<Rightarrow>
             (let t1 = skip_ws r1 in
              if take 1 t1 \<noteq> '':'' then None
              else
                (case read_value fuel (drop 1 t1) of
                   None \<Rightarrow> None
                 | Some (v, r2) \<Rightarrow>
                     (let t2 = skip_ws r2 in
                      if take 1 t2 = ''}'' then Some ([(k, v)], drop 1 t2)
                      else if take 1 t2 = '','' then
                        (case read_members fuel (drop 1 t2) of
                           None \<Rightarrow> None
                         | Some (members, r3) \<Rightarrow> Some ((k, v) # members, r3))
                      else None)))))"




section \<open>Events of a run\<close>

lemma copy_template_events:
  assumes "copy_template rt td w = (r, w')"
  shows "cwd w' = cwd w \<and>
    ((\<exists>e. r = Inl e) \<and> events w' = events w \<or>
     r = Inr () \<and> events w' = events w @ [Print Green (check_mark @ '' Template copied'')])"
  using assms
  by (auto simp: copy_template_def bind_def resolve_io_def fs_copy_def console_log_def Let_def
      split: if_splits option.splits prod.splits)

lemma patch_manifest_events:
  assumes "patch_manifest rt td w = (r, w')"
  shows "cwd w' = cwd w \<and> events w' = events w"
  using assms
  by (auto simp: patch_manifest_def bind_def fs_readJson_def set_name_def lift_def fs_writeJson_def
      Let_def split: if_splits option.splits prod.splits node.splits json.splits sum.splits)

lemma install_dependencies_events:
  assumes "install_dependencies rt td w = (r, w')"
  shows "(\<exists>e. r = Inl e) \<and> events w' = events w \<and> cwd w' = cwd w \<or>
     (\<exists>n. r = Inl (ExecError n)) \<and> cwd w' = target_path w td \<and>
        events w' = events w @ [Chdir (target_path w td), Print Yellow ''Installing dependencies...'',
           Spawn ''npm install'' (target_path w td)] \<or>
     r = Inr () \<and> cwd w' = target_path w td \<and>
        events w' = events w @ [Chdir (target_path w td), Print Yellow ''Installing dependencies...'',
           Spawn ''npm install'' (target_path w td),
           Print Green (check_mark @ '' Dependencies installed'')]"
  using assms
  by (auto simp: install_dependencies_def bind_def process_chdir_def console_log_def execAsync_def
      target_path_def Let_def split: if_splits option.splits prod.splits node.splits)

lemma bind_cases:
  assumes "bind m f w = (r, w')"
  obtains (fail) e where "m w = (Inl e, w')" and "r = Inl e"
        | (continue) x w1 where "m w = (Inr x, w1)" and "f x w1 = (r, w')"
  using assms by (auto simp: bind_def split: prod.splits sum.splits)

lemma report_done_events:
  "report_done pn w = (r, w') \<Longrightarrow>
     r = Inr () \<and> cwd w' = cwd w \<and> root w' = root w \<and>
     events w' = events w @
       [Print Blue ([CHR 0x0A] @ ''All done! Run the following:''),
        Print Bold ([CHR 0x0A] @ ''cd '' @ pn @ '' && npm run dev'' @ [CHR 0x0A])]"
  by (auto simp: report_done_def bind_def console_log_def)

lemma createApp_events:
  assumes run: "createApp rt pn td w = (r, w')"
  shows "(\<exists>e. r = Inl e) \<and> cwd w' = cwd w \<and>
           (events w' = events w @ take 1 (transcript pn (target_path w td)) \<or>
            events w' = events w @ take 2 (transcript pn (target_path w td))) \<or>
         (\<exists>n. r = Inl (ExecError n)) \<and> cwd w' = target_path w td \<and>
            events w' = events w @ take 5 (transcript pn (target_path w td)) \<or>
         r = Inr () \<and> cwd w' = target_path w td \<and>
            events w' = events w @ transcript pn (target_path w td)"
proof -
  define w0 where "w0 = w\<lparr>events := events w @ [Print Cyan ([CHR 0x0A] @ ''Creating project: '' @ pn)]\<rparr>"
  have step0: "bind (copy_template rt td) (\<lambda>_.
     bind (patch_manifest rt td) (\<lambda>_.
     bind (install_dependencies rt td) (\<lambda>_. report_done pn))) w0 = (r, w')"
    using run by (simp add: createApp_def bind_def console_log_def w0_def)
  have w0: "cwd w0 = cwd w" "events w0 = events w @ [Print Cyan ([CHR 0x0A] @ ''Creating project: '' @ pn)]"
    by (simp_all add: w0_def)
  from step0 show ?thesis
  proof (cases rule: bind_cases)
    case (fail e)
    with copy_template_events[OF fail(1)] w0 show ?thesis
      by (auto simp: transcript_def)
  next
    case (continue x w1)
    note c1 = copy_template_events[OF continue(1)]
    from continue(2) show ?thesis
    proof (cases rule: bind_cases)
      case (fail e)
      with patch_manifest_events[OF fail(1)] c1 w0 show ?thesis
        by (auto simp: transcript_def)
    next
      case (continue y w2)
      note c2 = patch_manifest_events[OF continue(1)]
      have tp: "target_path w2 td = target_path w td"
        using c1 c2 w0 by (simp add: target_path_def)
      from continue(2) show ?thesis
      proof (cases rule: bind_cases)
        case (fail e)
        with install_dependencies_events[OF fail(1)] c1 c2 w0 tp show ?thesis
          by (auto simp: transcript_def)
      next
        case (continue z w3)
        with install_dependencies_events[OF continue(1)] report_done_events[OF continue(2)]
          c1 c2 w0 tp show ?thesis
          by (auto simp: transcript_def)
      qed
    qed
  qed
qed

lemma spawn_in_transcript:
  assumes "take n (transcript pn dir) = pre @ Spawn c d # post"
  shows "c = ''npm install'' \<and> d = dir \<and> Chdir dir \<in> set pre \<and> (\<forall>x. Chdir x \<notin> set post) \<and> 5 \<le> n"
proof -
  have len: "length pre = 4"
  proof -
    have "(pre @ Spawn c d # post) ! length pre = Spawn c d" by simp
    then have a: "take n (transcript pn dir) ! length pre = Spawn c d" using assms by simp
    have b: "length pre < length (take n (transcript pn dir))" using assms by simp
    then have lt: "length pre < 8" "length pre < n" by (simp_all add: transcript_def)
    then have "transcript pn dir ! length pre = Spawn c d" using a by simp
    with lt(1) show ?thesis
      by (auto simp: transcript_def nth_Cons' split: if_splits)
  qed
  have n: "4 < n"
  proof -
    have "length pre < length (take n (transcript pn dir))" using assms by simp
    then show ?thesis using len by simp
  qed
  have pre: "pre = take 4 (transcript pn dir)"
  proof -
    have "take (length pre) (take n (transcript pn dir)) = pre" using assms by simp
    then show ?thesis using len n by (simp add: min_def)
  qed
  have sp: "Spawn c d = transcript pn dir ! 4"
  proof -
    have "take n (transcript pn dir) ! length pre = Spawn c d" using assms by simp
    then show ?thesis using len n by simp
  qed
  have post: "post = take (n - 5) (drop 5 (transcript pn dir))"
  proof -
    have "drop (Suc (length pre)) (take n (transcript pn dir)) = post" using assms by simp
    then show ?thesis using len by (simp add: drop_take)
  qed
  have "set post \<subseteq> set (drop 5 (transcript pn dir))"
    unfolding post by (rule set_take_subset)
  then have "\<forall>x. Chdir x \<notin> set post"
    by (auto simp: transcript_def)
  moreover have "c = ''npm install'' \<and> d = dir" using sp by (simp add: transcript_def)
  moreover have "Chdir dir \<in> set pre" unfolding pre by (simp add: transcript_def)
  ultimately show ?thesis using n by simp
qed

section \<open>Lookup and the copy walk\<close>

lemma lookup_append: "lookup t (p @ q) = lookup_opt (lookup t p) q"
proof (induction p arbitrary: t)
  case Nil
  show ?case by simp
next
  case (Cons s ss)
  show ?case
  proof (cases t)
    case (File c)
    then show ?thesis by simp
  next
    case (Dir es)
    then show ?thesis using Cons.IH by (simp split: option.splits)
  qed
qed

lemma copy_children_map:
  assumes "distinct (map fst es)" and "fst (copy_children es ds) = None"
  shows "map_of (snd (copy_children es ds)) name =
           (case map_of es name of
              None \<Rightarrow> map_of ds name
            | Some child \<Rightarrow> Some (snd (copy_node child (map_of ds name))))
         \<and> (\<forall>e \<in> set es. fst (copy_node (snd e) (map_of ds (fst e))) = None)"
  using assms
proof (induction es arbitrary: ds)
  case Nil
  show ?case by simp
next
  case (Cons entry es)
  obtain e child' where cn: "copy_node (snd entry) (map_of ds (fst entry)) = (e, child')"
    by (cases "copy_node (snd entry) (map_of ds (fst entry))")
  from Cons.prems(2) cn have e: "e = None"
    by (cases e) simp_all
  let ?ds1 = "AList.update (fst entry) child' ds"
  from Cons.prems cn e have rest: "fst (copy_children es ?ds1) = None"
    and res: "copy_children (entry # es) ds = copy_children es ?ds1"
    by simp_all
  from Cons.prems(1) have dist: "distinct (map fst es)" and notin: "fst entry \<notin> fst ` set es"
    by simp_all
  note ih = Cons.IH[OF dist rest]
  have other: "\<forall>x \<in> set es. map_of ?ds1 (fst x) = map_of ds (fst x)"
  proof
    fix x assume "x \<in> set es"
    then have "fst x \<in> fst ` set es" by (rule imageI)
    with notin have "fst x \<noteq> fst entry" by metis
    then show "map_of ?ds1 (fst x) = map_of ds (fst x)" by (simp add: update_conv')
  qed
  have none: "map_of es (fst entry) = None"
    using notin by (simp add: map_of_eq_None_iff)
  show ?case
  proof (intro conjI)
    show "map_of (snd (copy_children (entry # es) ds)) name =
           (case map_of (entry # es) name of
              None \<Rightarrow> map_of ds name
            | Some child \<Rightarrow> Some (snd (copy_node child (map_of ds name))))"
    proof (cases "name = fst entry")
      case True
      have "map_of (snd (copy_children es ?ds1)) name = Some child'"
        using ih none True by (simp add: update_conv')
      moreover have "map_of (entry # es) name = Some (snd entry)"
        using True by (cases entry) simp
      ultimately show ?thesis unfolding res using cn True by simp
    next
      case False
      have "map_of (entry # es) name = map_of es name"
        using False by (cases entry) auto
      moreover have "map_of ?ds1 name = map_of ds name"
        using False by (simp add: update_conv')
      ultimately show ?thesis unfolding res using ih by (simp split: option.splits)
    qed
    show "\<forall>x \<in> set (entry # es). fst (copy_node (snd x) (map_of ds (fst x))) = None"
      using ih other cn e by auto
  qed
qed

lemma copy_node_Dir:
  assumes "fst (copy_node (Dir es) dst) = None"
  shows "copy_node (Dir es) dst = (None, Dir (snd (copy_children es (children_of dst))))
     \<and> fst (copy_children es (children_of dst)) = None
     \<and> lookup_opt dst (x # p) = lookup_opt (map_of (children_of dst) x) p"
proof -
  consider "dst = None" | c where "dst = Some (File c)" | ds where "dst = Some (Dir ds)"
    by (metis option.exhaust node.exhaust)
  then show ?thesis
    using assms by cases (auto split: prod.splits option.splits)
qed

lemma copy_node_File:
  assumes "fst (copy_node (File c) dst) = None"
  shows "snd (copy_node (File c) dst) = File c \<and> lookup_opt dst (x # p) = None"
proof -
  consider "dst = None" | old where "dst = Some (File old)" | ds where "dst = Some (Dir ds)"
    by (metis option.exhaust node.exhaust)
  then show ?thesis
    using assms by cases auto
qed

lemma lookup_opt_Nil: "lookup_opt d [] = d"
  by (cases d) simp_all

lemma lookup_opt_conv:
  "(case m of None \<Rightarrow> None | Some child \<Rightarrow> lookup child r) = lookup_opt m r"
  by (cases m) simp_all

lemma copy_node_lookup:
  assumes "wf_node s" and "fst (copy_node s dst) = None"
  shows "lookup (snd (copy_node s dst)) r =
           (case lookup s r of
              None \<Rightarrow> lookup_opt dst r
            | Some (File c) \<Rightarrow> Some (File c)
            | Some (Dir es) \<Rightarrow> Some (snd (copy_node (Dir es) (lookup_opt dst r))))"
  using assms
proof (induction r arbitrary: s dst)
  case Nil
  then show ?case
    using copy_node_File[of _ dst] by (cases s) (simp_all add: lookup_opt_Nil)
next
  case (Cons x r)
  show ?case
  proof (cases s)
    case (File c)
    with Cons.prems copy_node_File[of c dst x r] show ?thesis by simp
  next
    case (Dir es)
    let ?ds0 = "children_of dst"
    from Cons.prems Dir have ok: "fst (copy_node (Dir es) dst) = None" by simp
    from copy_node_Dir[OF ok, of x r]
    have d: "copy_node (Dir es) dst = (None, Dir (snd (copy_children es (children_of dst))))"
      "fst (copy_children es (children_of dst)) = None"
      "lookup_opt dst (x # r) = lookup_opt (map_of (children_of dst) x) r"
      by simp_all
    from Cons.prems(1) Dir have dist: "distinct (map fst es)"
      and wfc: "\<forall>e \<in> set es. wf_node (snd e)" by simp_all
    note cm = copy_children_map[OF dist d(2), of x]
    show ?thesis
    proof (cases "map_of es x")
      case None
      then show ?thesis using Dir d cm by (simp add: lookup_opt_conv)
    next
      case (Some child)
      then have mem: "(x, child) \<in> set es" by (rule map_of_SomeD)
      then have wfchild: "wf_node child" and okc: "fst (copy_node child (map_of ?ds0 x)) = None"
        using wfc cm by force+
      have "lookup (snd (copy_node s dst)) (x # r)
              = lookup (snd (copy_node child (map_of ?ds0 x))) r"
        using Dir d cm Some by simp
      also have "\<dots> = (case lookup child r of
              None \<Rightarrow> lookup_opt (map_of ?ds0 x) r
            | Some (File c) \<Rightarrow> Some (File c)
            | Some (Dir es) \<Rightarrow> Some (snd (copy_node (Dir es) (lookup_opt (map_of ?ds0 x) r))))"
        by (rule Cons.IH[OF wfchild okc])
      finally show ?thesis using Dir Some d(3)
        by (simp add: lookup_opt_conv split: option.splits node.splits)
    qed
  qed
qed

lemma create_at_lookup:
  "fst (create_at p f) = fst (f None) \<and>
   lookup (snd (create_at p f)) (p @ r) = lookup (snd (f None)) r"
  by (induction p) (auto split: prod.splits)

lemma modify_at_lookup:
  assumes "fst (modify_at p f t) = None"
  shows "fst (f (lookup t p)) = None \<and>
         lookup (snd (modify_at p f t)) (p @ r) = lookup (snd (f (lookup t p))) r"
  using assms
proof (induction p arbitrary: t)
  case Nil
  then show ?case by simp
next
  case (Cons s ss)
  show ?case
  proof (cases t)
    case (File c)
    with Cons.prems show ?thesis by simp
  next
    case (Dir es)
    show ?thesis
    proof (cases "map_of es s")
      case None
      with Cons.prems Dir create_at_lookup[of ss f r] show ?thesis
        by (auto simp: update_conv' split: prod.splits)
    next
      case (Some child)
      with Cons.prems Dir have "fst (modify_at ss f child) = None"
        by (auto split: prod.splits)
      from Cons.IH[OF this] Some Dir show ?thesis
        by (auto simp: update_conv' split: prod.splits)
    qed
  qed
qed

section \<open>Writing files and the errors of the file system\<close>

lemma file_at_Nil: "file_at n [] = (case n of File c \<Rightarrow> Some c | Dir es \<Rightarrow> None)"
  by (simp add: file_at_def split: node.splits)

lemma file_at_Cons:
  "file_at (Dir es) (x # q) = (case map_of es x of None \<Rightarrow> None | Some n \<Rightarrow> file_at n q)"
  by (simp add: file_at_def split: option.splits)

lemma file_at_File_Cons: "file_at (File c) (x # q) = None"
  by (simp add: file_at_def)

lemma dir_at_Nil: "dir_at n [] = is_dir n"
  by (simp add: dir_at_def is_dir_def split: node.splits)

lemma dir_at_Cons:
  "dir_at (Dir es) (x # q) = (case map_of es x of None \<Rightarrow> False | Some n \<Rightarrow> dir_at n q)"
  by (simp add: dir_at_def split: option.splits)

lemma dir_at_File_Cons: "dir_at (File c) (x # q) = False"
  by (simp add: dir_at_def)

lemmas at_simps = file_at_Nil file_at_Cons file_at_File_Cons dir_at_Nil dir_at_Cons dir_at_File_Cons

lemma write_at_effect:
  assumes "write_at p c t = Inr t'"
  shows "file_at t' q = (if q = p then Some c else file_at t q) \<and> dir_at t' q = dir_at t q"
  using assms
proof (induction p arbitrary: t t' q)
  case Nil
  then show ?case
    by (cases t; cases q) (auto simp: at_simps is_dir_def)
next
  case (Cons s ss)
  show ?case
  proof (cases t)
    case (File old)
    with Cons.prems show ?thesis by simp
  next
    case (Dir es)
    show ?thesis
    proof (cases "map_of es s")
      case None
      with Cons.prems Dir have t': "t' = Dir (AList.update s (File c) es)" and ss: "ss = []"
        by (auto split: if_splits)
      show ?thesis
      proof (cases q)
        case Nil
        then show ?thesis using t' Dir by (simp add: at_simps is_dir_def)
      next
        case (Cons x qs)
        then show ?thesis using t' Dir None ss
          by (cases qs) (auto simp: at_simps is_dir_def update_conv')
      qed
    next
      case (Some child)
      with Cons.prems Dir obtain child' where wr: "write_at ss c child = Inr child'"
        and t': "t' = Dir (AList.update s child' es)"
        by (auto split: sum.splits)
      note ih = Cons.IH[OF wr]
      show ?thesis
      proof (cases q)
        case Nil
        then show ?thesis using t' Dir by (simp add: at_simps is_dir_def)
      next
        case (Cons x qs)
        then show ?thesis using t' Dir Some ih[of qs]
          by (auto simp: at_simps update_conv')
      qed
    qed
  qed
qed


lemma copy_errors:
  "fst (copy_node s dst) \<noteq> Some (ExecError n)"
  "fst (copy_children es ds) \<noteq> Some (ExecError n)"
  by (induction s dst and es ds rule: copy_node_copy_children.induct)
     (auto split: prod.splits option.splits)

lemma create_at_error:
  assumes "\<And>x. fst (f x) \<noteq> Some (ExecError n)"
  shows "fst (create_at p f) \<noteq> Some (ExecError n)"
  using create_at_lookup[of p f "[]"] assms by simp

lemma modify_at_error:
  assumes "\<And>x. fst (f x) \<noteq> Some (ExecError n)"
  shows "fst (modify_at p f t) \<noteq> Some (ExecError n)"
proof (induction p arbitrary: t)
  case Nil
  show ?case using assms by simp
next
  case (Cons s ss)
  show ?case
  proof (cases t)
    case (File c)
    then show ?thesis by simp
  next
    case (Dir es)
    have "fst (modify_at (s # ss) f (Dir es)) =
        fst (case map_of es s of None \<Rightarrow> create_at ss f | Some child \<Rightarrow> modify_at ss f child)"
      by (simp split: prod.splits)
    also have "\<dots> \<noteq> Some (ExecError n)"
      using Cons.IH create_at_error[OF assms, of ss] by (cases "map_of es s") simp_all
    finally show ?thesis using Dir by simp
  qed
qed

section \<open>The copy step\<close>

lemma copy_node_sub_ok:
  assumes "wf_node s" and "fst (copy_node s dst) = None" and "lookup s r = Some (Dir sub)"
  shows "fst (copy_node (Dir sub) (lookup_opt dst r)) = None"
  using assms
proof (induction r arbitrary: s dst)
  case Nil
  then show ?case by (simp add: lookup_opt_Nil)
next
  case (Cons x r)
  from Cons.prems(3) obtain es where Dir: "s = Dir es"
    by (cases s) simp_all
  from Cons.prems Dir have ok: "fst (copy_node (Dir es) dst) = None" by simp
  from copy_node_Dir[OF ok, of x r]
  have d: "fst (copy_children es (children_of dst)) = None"
    "lookup_opt dst (x # r) = lookup_opt (map_of (children_of dst) x) r"
    by simp_all
  from Cons.prems(1) Dir have dist: "distinct (map fst es)"
    and wfc: "\<forall>e \<in> set es. wf_node (snd e)" by simp_all
  note cm = copy_children_map[OF dist d(1), of x]
  from Cons.prems(3) Dir obtain child where ch: "map_of es x = Some child"
    and sub: "lookup child r = Some (Dir sub)"
    by (auto split: option.splits)
  from ch have mem: "(x, child) \<in> set es" by (rule map_of_SomeD)
  then have wfchild: "wf_node child"
    and okc: "fst (copy_node child (map_of (children_of dst) x)) = None"
    using wfc cm by force+
  from Cons.IH[OF wfchild okc sub] d(2) show ?case by simp
qed

lemma copy_template_absent:
  assumes "lookup (root w) (template_path rt w) = None"
  shows "copy_template rt td w = (Inl ENOENT, w)"
  using assms
  by (simp add: copy_template_def bind_def resolve_io_def fs_copy_def template_path_def Let_def)

lemma copy_template_modify:
  assumes "copy_template rt td w = (r, w')"
    and "lookup (root w) (template_path rt w) = Some tpl"
    and "r = Inr () \<or> r = Inl (ExecError n)"
  shows "r = Inr ()" and "cwd w' = cwd w"
    and "modify_at (fs_path (cwd w) td) (copy_node tpl) (root w) = (None, root w')"
proof -
  have ne: "fst (modify_at (fs_path (cwd w) td) (copy_node tpl) (root w)) \<noteq> Some (ExecError n)"
    by (rule modify_at_error) (rule copy_errors(1))
  have "r = Inr () \<and> cwd w' = cwd w
      \<and> modify_at (fs_path (cwd w) td) (copy_node tpl) (root w) = (None, root w')"
    using assms ne
    by (auto simp: copy_template_def bind_def resolve_io_def fs_copy_def template_path_def
        console_log_def Let_def split: if_splits prod.splits option.splits)
  then show "r = Inr ()" and "cwd w' = cwd w"
    and "modify_at (fs_path (cwd w) td) (copy_node tpl) (root w) = (None, root w')"
    by simp_all
qed

lemma copy_template_lookup:
  assumes "copy_template rt td w = (Inr (), w')"
    and "lookup (root w) (template_path rt w) = Some tpl"
    and "wf_node tpl"
  shows "lookup (root w') (fs_path (cwd w) td @ r) =
           (case lookup tpl r of
              None \<Rightarrow> lookup (root w) (fs_path (cwd w) td @ r)
            | Some (File c) \<Rightarrow> Some (File c)
            | Some (Dir es) \<Rightarrow>
                Some (snd (copy_node (Dir es) (lookup (root w) (fs_path (cwd w) td @ r)))))"
proof -
  let ?d = "fs_path (cwd w) td"
  have m: "modify_at ?d (copy_node tpl) (root w) = (None, root w')"
    using copy_template_modify(3)[OF assms(1,2)] by simp
  then have f: "fst (modify_at ?d (copy_node tpl) (root w)) = None"
    and s: "snd (modify_at ?d (copy_node tpl) (root w)) = root w'" by simp_all
  from modify_at_lookup[OF f, of r] s
  have ok: "fst (copy_node tpl (lookup (root w) ?d)) = None"
    and lk: "lookup (root w') (?d @ r) = lookup (snd (copy_node tpl (lookup (root w) ?d))) r"
    by simp_all
  show ?thesis
    unfolding lookup_append[of "root w"]
    using lk copy_node_lookup[OF assms(3) ok, of r] by simp
qed

lemma copy_template_dirs:
  assumes "copy_template rt td w = (Inr (), w')"
    and "lookup (root w) (template_path rt w) = Some tpl"
    and "wf_node tpl"
    and "dir_at tpl r"
  shows "dir_at (root w') (fs_path (cwd w) td @ r)"
proof -
  let ?d = "fs_path (cwd w) td"
  have m: "modify_at ?d (copy_node tpl) (root w) = (None, root w')"
    using copy_template_modify(3)[OF assms(1,2)] by simp
  then have f: "fst (modify_at ?d (copy_node tpl) (root w)) = None" by simp
  from modify_at_lookup[OF f, of r]
  have ok: "fst (copy_node tpl (lookup (root w) ?d)) = None" by simp
  from assms(4) obtain es where es: "lookup tpl r = Some (Dir es)"
    by (auto simp: dir_at_def split: option.splits node.splits)
  from copy_node_sub_ok[OF assms(3) ok es]
  have "fst (copy_node (Dir es) (lookup_opt (lookup (root w) ?d) r)) = None" .
  from copy_node_Dir[OF this]
  have "is_dir (snd (copy_node (Dir es) (lookup_opt (lookup (root w) ?d) r)))"
    by (simp add: is_dir_def)
  then show ?thesis
    using copy_template_lookup[OF assms(1-3), of r] es
    by (auto simp: dir_at_def is_dir_def lookup_append split: node.splits)
qed

lemma copy_template_files:
  assumes "copy_template rt td w = (Inr (), w')"
    and "lookup (root w) (template_path rt w) = Some tpl"
    and "wf_node tpl"
  shows "file_at tpl r = Some c \<Longrightarrow> file_at (root w') (fs_path (cwd w) td @ r) = Some c"
    and "lookup tpl r = None \<Longrightarrow>
           lookup (root w') (fs_path (cwd w) td @ r) = lookup (root w) (fs_path (cwd w) td @ r)"
proof -
  note lk = copy_template_lookup[OF assms, of r]
  show "file_at tpl r = Some c \<Longrightarrow> file_at (root w') (fs_path (cwd w) td @ r) = Some c"
    using lk by (auto simp: file_at_def split: option.splits node.splits)
  show "lookup tpl r = None \<Longrightarrow>
           lookup (root w') (fs_path (cwd w) td @ r) = lookup (root w) (fs_path (cwd w) td @ r)"
    using lk by simp
qed

section \<open>The manifest patch, the install and the stages of a run\<close>

lemma join_with_eq_Nil: "join_with d segs = [] \<Longrightarrow> \<forall>s \<in> set segs. s = []"
  by (induction d segs rule: join_with.induct) auto

lemma path_normalize_nonempty: "path_normalize p \<noteq> []"
  by (simp add: path_normalize_def Let_def)

lemma path_join_nonempty: "path_join args \<noteq> []"
  by (simp add: path_join_def path_normalize_nonempty split: list.splits)

lemma write_at_error: "write_at p c t \<noteq> Inl (ExecError n)"
proof (induction p arbitrary: t)
  case Nil
  show ?case by (cases t) simp_all
next
  case (Cons s ss)
  show ?case
  proof (cases t)
    case (File old)
    then show ?thesis by simp
  next
    case (Dir es)
    then show ?thesis using Cons.IH
      by (auto split: option.splits sum.splits)
  qed
qed

lemma set_name_error: "set_name obj name \<noteq> Inl (ExecError n)"
  by (cases obj) (simp_all add: set_name_def)

lemma patch_manifest_effect:
  assumes "patch_manifest rt td w = (r, w')"
    and "r = Inr () \<or> r = Inl (ExecError n)"
  shows "r = Inr () \<and> cwd w' = cwd w \<and>
    (\<exists>content obj obj'.
       file_at (root w) (manifest_path w td) = Some content \<and>
       JSON_parse rt (stripBom content) = Some obj \<and>
       set_name obj (path_basename td) = Inr obj' \<and>
       write_at (manifest_path w td) (JSON_stringify obj' 2 @ [CHR 0x0A]) (root w) = Inr (root w'))"
  using assms write_at_error[of "manifest_path w td" _ "root w" n] set_name_error[of _ _ n]
  by (auto simp: patch_manifest_def bind_def fs_readJson_def lift_def fs_writeJson_def
      manifest_path_def file_at_def path_join_nonempty Let_def
      split: if_splits option.splits prod.splits node.splits sum.splits)

lemma patch_manifest_keeps:
  assumes "patch_manifest rt td w = (r, w')"
    and "r = Inr () \<or> r = Inl (ExecError n)"
  shows "dir_at (root w') q = dir_at (root w) q"
    and "file_at (root w) q \<noteq> None \<Longrightarrow> file_at (root w') q \<noteq> None"
    and "q \<noteq> manifest_path w td \<Longrightarrow> file_at (root w') q = file_at (root w) q"
    and "\<exists>obj. file_at (root w') (manifest_path w td) = Some (JSON_stringify obj 2 @ [CHR 0x0A])"
proof -
  from patch_manifest_effect[OF assms] obtain obj' where
    wr: "write_at (manifest_path w td) (JSON_stringify obj' 2 @ [CHR 0x0A]) (root w) = Inr (root w')"
    by blast
  note eff = write_at_effect[OF wr]
  show "dir_at (root w') q = dir_at (root w) q" using eff[of q] by simp
  show "file_at (root w) q \<noteq> None \<Longrightarrow> file_at (root w') q \<noteq> None" using eff[of q] by auto
  show "q \<noteq> manifest_path w td \<Longrightarrow> file_at (root w') q = file_at (root w) q"
    using eff[of q] by simp
  show "\<exists>obj. file_at (root w') (manifest_path w td) = Some (JSON_stringify obj 2 @ [CHR 0x0A])"
    using eff[of "manifest_path w td"] by auto
qed

lemma install_dependencies_root:
  assumes "install_dependencies rt td w = (r, w')"
    and "r = Inr () \<or> r = Inl (ExecError n)"
  shows "dir_at (root w) (fs_path (cwd w) td)"
    and "root w' = snd (child_process rt ''npm install'' (target_path w td) (root w))"
    and "r = Inr () \<longleftrightarrow> fst (child_process rt ''npm install'' (target_path w td) (root w)) = 0"
    and "r = Inl (ExecError n) \<Longrightarrow>
           n = fst (child_process rt ''npm install'' (target_path w td) (root w))"
  using assms
  by (auto simp: install_dependencies_def bind_def process_chdir_def console_log_def execAsync_def
      target_path_def dir_at_def Let_def
      split: if_splits option.splits prod.splits node.splits)

lemma createApp_stages:
  assumes run: "createApp rt pn td w = (r, w')"
    and res: "r = Inr () \<or> r = Inl (ExecError n)"
    and tpl: "lookup (root w) (template_path rt w) = Some tpl"
  obtains w0 w1 w2 where
    "root w0 = root w" "cwd w0 = cwd w"
    "copy_template rt td w0 = (Inr (), w1)" "cwd w1 = cwd w"
    "patch_manifest rt td w1 = (Inr (), w2)" "cwd w2 = cwd w"
    "dir_at (root w2) (fs_path (cwd w) td)"
    "root w' = snd (child_process rt ''npm install'' (target_path w td) (root w2))"
    "r = Inr () \<longleftrightarrow> fst (child_process rt ''npm install'' (target_path w td) (root w2)) = 0"
    "r = Inl (ExecError n) \<Longrightarrow>
       n = fst (child_process rt ''npm install'' (target_path w td) (root w2))"
proof -
  define w0 where "w0 = w\<lparr>events := events w @ [Print Cyan ([CHR 0x0A] @ ''Creating project: '' @ pn)]\<rparr>"
  have w0: "root w0 = root w" "cwd w0 = cwd w" by (simp_all add: w0_def)
  have tpl0: "lookup (root w0) (template_path rt w0) = Some tpl"
    using tpl w0 by (simp add: template_path_def)
  have step0: "bind (copy_template rt td) (\<lambda>_.
     bind (patch_manifest rt td) (\<lambda>_.
     bind (install_dependencies rt td) (\<lambda>_. report_done pn))) w0 = (r, w')"
    using run by (simp add: createApp_def bind_def console_log_def w0_def)
  from step0 show ?thesis
  proof (cases rule: bind_cases)
    case (fail e)
    from copy_template_modify(1)[OF fail(1) tpl0, of n] fail(2) res show ?thesis by auto
  next
    case (continue x w1)
    then have c1: "copy_template rt td w0 = (Inr (), w1)" by simp
    have cw1: "cwd w1 = cwd w" using copy_template_events[OF c1] w0 by simp
    from continue(2) show ?thesis
    proof (cases rule: bind_cases)
      case (fail e)
      from patch_manifest_effect[OF fail(1), of n] fail(2) res show ?thesis by auto
    next
      case (continue y w2)
      then have c2: "patch_manifest rt td w1 = (Inr (), w2)" by simp
      have cw2: "cwd w2 = cwd w" using patch_manifest_events[OF c2] cw1 by simp
      have tp: "target_path w2 td = target_path w td" using cw2 by (simp add: target_path_def)
      from continue(2) show ?thesis
      proof (cases rule: bind_cases)
        case (fail e)
        with res have r': "r = Inr () \<or> r = Inl (ExecError n)" by simp
        from install_dependencies_root[OF _ r', of rt td w2 w'] fail tp cw2
        show ?thesis using that[OF w0 c1 cw1 c2 cw2] by auto
      next
        case (continue z w3)
        from report_done_events[OF continue(2)] have r: "r = Inr ()" and rw: "root w' = root w3"
          by simp_all
        have i: "install_dependencies rt td w2 = (Inr (), w3)" using continue(1) by simp
        from install_dependencies_root[OF i, of n] tp cw2 r rw
        show ?thesis using that[OF w0 c1 cw1 c2 cw2] by auto
      qed
    qed
  qed
qed

section \<open>Path resolution\<close>

lemma split_from_append:
  "split_from cur (xs @ CHR ''/'' # ys) = split_from cur xs @ split_from [] ys"
  by (induction xs arbitrary: cur) auto

lemma split_from_plain:
  "CHR ''/'' \<notin> set p \<Longrightarrow> split_from cur p = [rev cur @ p]"
  by (induction p arbitrary: cur) auto

lemma split_sep_dir:
  assumes "CHR ''/'' \<notin> set p"
  shows "split_sep (c @ ''/'' @ p @ ''/'') = split_sep c @ [p, []]"
    and "split_sep (p @ ''/'') = [p, []]"
  using assms split_from_append[of "[]" c "p @ ''/''"] split_from_append[of "[]" p "[]"]
  by (simp_all add: split_sep_def split_from_plain)

lemma norm_segs_snoc_plain:
  assumes "p \<noteq> []" "p \<noteq> ''.''" "p \<noteq> ''..''"
  shows "norm_segs a (segs @ [p, []]) = norm_segs a segs @ [p]"
  using assms by (simp add: norm_segs_def norm_step_def)

lemma norm_segs_snoc_dot: "norm_segs a (segs @ [''.'', []]) = norm_segs a segs"
  by (simp add: norm_segs_def norm_step_def)

lemma fs_path_simple:
  assumes "CHR ''/'' \<notin> set p" and "p \<noteq> []" and "p \<noteq> ''.''" and "p \<noteq> ''..''"
  shows "fs_path c p = fs_path c ''.'' @ [p]"
proof -
  have np: "\<not> isAbsolute p" using assms(1,2) by (cases p) (auto simp: isAbsolute_def)
  have nd: "\<not> isAbsolute ''.''" by (simp add: isAbsolute_def)
  have d: "CHR ''/'' \<notin> set ''.''" by simp
  note sp = split_sep_dir[OF assms(1)] split_sep_dir[OF d]
  note nm = norm_segs_snoc_plain[OF assms(2-4)] norm_segs_snoc_dot
  show ?thesis
  proof (cases "c = []")
    case True
    then show ?thesis using np nd assms(2) sp(2,4) nm[of _ "[]"]
      by (simp add: fs_path_def)
  next
    case False
    then show ?thesis using np nd assms(2) sp(1,3)[of c] nm
      by (simp add: fs_path_def)
  qed
qed

lemma split_from_slash_free:
  "CHR ''/'' \<notin> set cur \<Longrightarrow> \<forall>s \<in> set (split_from cur p). CHR ''/'' \<notin> set s"
  by (induction cur p rule: split_from.induct) auto

lemma split_sep_slash_free: "\<forall>s \<in> set (split_sep p). CHR ''/'' \<notin> set s"
  using split_from_slash_free[of "[]" p] by (simp add: split_sep_def)

lemma split_sep_append:
  "split_sep (xs @ CHR ''/'' # ys) = split_sep xs @ split_sep ys"
  by (simp add: split_sep_def split_from_append)

lemma split_sep_plain: "CHR ''/'' \<notin> set p \<Longrightarrow> split_sep p = [p]"
  by (simp add: split_sep_def split_from_plain)

lemma split_join:
  assumes "segs \<noteq> []" and "\<forall>s \<in> set segs. CHR ''/'' \<notin> set s"
  shows "split_sep (join_with ''/'' segs) = segs"
  using assms
proof (induction "''/''" segs rule: join_with.induct)
  case 1
  then show ?case by simp
next
  case (2 s)
  then show ?case by (simp add: split_sep_plain)
next
  case (3 s t ss)
  then show ?case
    using split_sep_append[of s "join_with ''/'' (t # ss)"] by (simp add: split_sep_plain)
qed

lemma norm_step_cases:
  "norm_step a st seg = st \<or> norm_step a st seg = seg # st \<and> seg \<noteq> [] \<and> seg \<noteq> ''.''
   \<or> norm_step a st seg = tl st"
  by (cases st) (simp_all add: norm_step_def)

lemma norm_step_segments:
  assumes "\<forall>s \<in> set st. s \<noteq> [] \<and> s \<noteq> ''.'' \<and> CHR ''/'' \<notin> set s" and "CHR ''/'' \<notin> set seg"
  shows "\<forall>s \<in> set (norm_step a st seg). s \<noteq> [] \<and> s \<noteq> ''.'' \<and> CHR ''/'' \<notin> set s"
proof -
  have "set (tl st) \<subseteq> set st" by (cases st) auto
  then show ?thesis using norm_step_cases[of a st seg] assms by auto
qed

lemma foldl_norm_step_segments:
  assumes "\<forall>s \<in> set st. s \<noteq> [] \<and> s \<noteq> ''.'' \<and> CHR ''/'' \<notin> set s"
    and "\<forall>s \<in> set segs. CHR ''/'' \<notin> set s"
  shows "\<forall>s \<in> set (foldl (norm_step a) st segs). s \<noteq> [] \<and> s \<noteq> ''.'' \<and> CHR ''/'' \<notin> set s"
  using assms
proof (induction segs arbitrary: st)
  case Nil
  then show ?case by simp
next
  case (Cons seg segs)
  from Cons.prems have "\<forall>s \<in> set (norm_step a st seg). s \<noteq> [] \<and> s \<noteq> ''.'' \<and> CHR ''/'' \<notin> set s"
    by (intro norm_step_segments) simp_all
  from Cons.IH[OF this] Cons.prems(2) show ?case by simp
qed

lemma norm_segs_segments:
  assumes "\<forall>s \<in> set segs. CHR ''/'' \<notin> set s"
  shows "\<forall>s \<in> set (norm_segs a segs). s \<noteq> [] \<and> s \<noteq> ''.'' \<and> CHR ''/'' \<notin> set s"
  using foldl_norm_step_segments[of "[]" segs a] assms by (simp add: norm_segs_def)

lemma norm_step_no_dotdot:
  assumes "''..'' \<notin> set st"
  shows "''..'' \<notin> set (norm_step False st seg)"
  using assms by (auto simp: norm_step_def split: list.splits)

lemma foldl_norm_step_no_dotdot:
  assumes "''..'' \<notin> set st"
  shows "''..'' \<notin> set (foldl (norm_step False) st segs)"
  using assms
proof (induction segs arbitrary: st)
  case Nil
  then show ?case by simp
next
  case (Cons seg segs)
  from Cons.IH[OF norm_step_no_dotdot[OF Cons.prems]] show ?case by simp
qed

lemma foldl_norm_step_plain:
  assumes "\<forall>s \<in> set segs. s \<noteq> [] \<and> s \<noteq> ''.'' \<and> s \<noteq> ''..''"
  shows "foldl (norm_step a) st segs = rev segs @ st"
  using assms by (induction segs arbitrary: st) (simp_all add: norm_step_def)

lemma foldl_norm_step_renorm:
  assumes "\<forall>s \<in> set acc. s \<noteq> [] \<and> s \<noteq> ''.''"
  shows "foldl (norm_step a) st (rev (foldl (norm_step True) acc segs))
           = foldl (norm_step a) (foldl (norm_step a) st (rev acc)) segs"
  using assms
proof (induction segs arbitrary: acc)
  case Nil
  show ?case by simp
next
  case (Cons y ys)
  let ?acc' = "norm_step True acc y"
  have inv: "\<forall>s \<in> set ?acc'. s \<noteq> [] \<and> s \<noteq> ''.''"
    using Cons.prems by (auto simp: norm_step_def split: list.splits)
  have step: "foldl (norm_step a) st (rev ?acc')
      = norm_step a (foldl (norm_step a) st (rev acc)) y"
  proof (cases "y = [] \<or> y = ''.''")
    case True
    then show ?thesis by (auto simp: norm_step_def)
  next
    case plainish: False
    show ?thesis
    proof (cases "y = ''..''")
      case False
      with plainish show ?thesis by (simp add: norm_step_def)
    next
      case dd: True
      show ?thesis
      proof (cases acc)
        case Nil
        with dd show ?thesis by (simp add: norm_step_def)
      next
        case (Cons t b)
        show ?thesis
        proof (cases "t = ''..''")
          case True
          with dd Cons show ?thesis by (simp add: norm_step_def)
        next
          case False
          moreover have "t \<noteq> []" "t \<noteq> ''.''" using Cons.prems Cons by auto
          ultimately show ?thesis using dd Cons by (simp add: norm_step_def)
        qed
      qed
    qed
  qed
  show ?case using Cons.IH[OF inv] step by simp
qed

lemma norm_segs_renorm:
  "foldl (norm_step a) st (norm_segs True segs) = foldl (norm_step a) st segs"
  using foldl_norm_step_renorm[of "[]" a st segs] by (simp add: norm_segs_def)

lemma norm_step_plain:
  "seg \<noteq> [] \<Longrightarrow> seg \<noteq> ''.'' \<Longrightarrow> seg \<noteq> ''..'' \<Longrightarrow> norm_step a st seg = seg # st"
  by (simp add: norm_step_def)

lemma norm_step_empty: "norm_step a st [] = st"
  by (simp add: norm_step_def)

lemma norm_segs_under_prefix:
  assumes "seg \<noteq> []" "seg \<noteq> ''.''" "seg \<noteq> ''..''"
  shows "norm_segs b (pre @ (norm_segs True ys @ [seg]) @ [[]]) = norm_segs b (pre @ ys @ [[]]) @ [seg]"
  by (simp add: norm_segs_def norm_segs_renorm[unfolded norm_segs_def] norm_step_plain[OF assms]
      norm_step_empty)

lemma norm_segs_False_plain:
  "\<forall>s \<in> set (norm_segs False ys). s \<noteq> [] \<and> s \<noteq> ''.'' \<and> s \<noteq> ''..''"
proof -
  have a: "\<forall>s \<in> set (foldl (norm_step False) [] ys). s \<noteq> [] \<and> s \<noteq> ''.''"
  proof (induction ys rule: rev_induct)
    case Nil
    show ?case by simp
  next
    case (snoc y ys)
    have "set (tl (foldl (norm_step False) [] ys)) \<subseteq> set (foldl (norm_step False) [] ys)"
      by (cases "foldl (norm_step False) [] ys") auto
    then show ?case
      using snoc norm_step_cases[of False "foldl (norm_step False) [] ys" y] by auto
  qed
  have b: "''..'' \<notin> set (foldl (norm_step False) [] ys)"
    by (rule foldl_norm_step_no_dotdot) simp
  show ?thesis using a b by (auto simp: norm_segs_def)
qed

lemma norm_segs_under_root:
  assumes "seg \<noteq> []" "seg \<noteq> ''.''" "seg \<noteq> ''..''"
  shows "norm_segs False ([] # (norm_segs False ys @ [seg]) @ [[]]) = norm_segs False (ys @ [[]]) @ [seg]"
proof -
  have plain: "\<forall>s \<in> set (norm_segs False ys @ [seg]). s \<noteq> [] \<and> s \<noteq> ''.'' \<and> s \<noteq> ''..''"
    using norm_segs_False_plain[of ys] assms by simp
  have "norm_segs False ([] # X @ [[]]) = rev (foldl (norm_step False) [] X)" for X
    by (simp add: norm_segs_def norm_step_empty)
  then have "norm_segs False ([] # (norm_segs False ys @ [seg]) @ [[]])
      = rev (foldl (norm_step False) [] (norm_segs False ys @ [seg]))" .
  also have "\<dots> = norm_segs False ys @ [seg]"
    unfolding foldl_norm_step_plain[OF plain] by simp
  also have "\<dots> = norm_segs False (ys @ [[]]) @ [seg]"
    by (simp add: norm_segs_def norm_step_empty)
  finally show ?thesis .
qed

lemma hd_join_with:
  "segs \<noteq> [] \<Longrightarrow> hd segs \<noteq> [] \<Longrightarrow> hd (join_with d segs) = hd (hd segs)"
  by (induction d segs rule: join_with.induct) auto

lemma join_with_nonempty:
  "segs \<noteq> [] \<Longrightarrow> hd segs \<noteq> [] \<Longrightarrow> join_with d segs \<noteq> []"
  by (induction d segs rule: join_with.induct) auto

lemma fs_path_manifest:
  assumes "td \<noteq> []"
  shows "fs_path c (path_join [td, ''package.json'']) = fs_path c td @ [''package.json'']"
proof -
  let ?pkg = "''package.json''"
  let ?a = "\<not> isAbsolute td"
  let ?N = "norm_segs ?a (split_sep td) @ [?pkg]"
  have pkg: "?pkg \<noteq> []" "?pkg \<noteq> ''.''" "?pkg \<noteq> ''..''" "CHR ''/'' \<notin> set ?pkg"
    by simp_all
  have split_j: "split_sep (td @ ''/'' @ ?pkg) = split_sep td @ [?pkg]"
    using split_sep_append[of td ?pkg] by (simp add: split_sep_plain)
  have normN: "norm_segs ?a (split_sep td @ [?pkg]) = ?N"
    by (simp add: norm_segs_def norm_step_plain)
  have segsN: "\<forall>s \<in> set ?N. s \<noteq> [] \<and> CHR ''/'' \<notin> set s"
    using norm_segs_segments[OF split_sep_slash_free, of ?a td] by auto
  have hdN: "hd ?N \<noteq> []" "CHR ''/'' \<notin> set (hd ?N)"
    using segsN by (cases "norm_segs ?a (split_sep td)"; simp)+
  have joinN: "join_sep ?N \<noteq> []" "\<not> isAbsolute (join_sep ?N)" "split_sep (join_sep ?N) = ?N"
  proof -
    show ne: "join_sep ?N \<noteq> []"
      unfolding join_sep_def by (rule join_with_nonempty[OF _ hdN(1)]) simp
    have "hd (join_sep ?N) = hd (hd ?N)"
      unfolding join_sep_def by (rule hd_join_with[OF _ hdN(1)]) simp
    moreover have "hd (hd ?N) \<in> set (hd ?N)" using hdN(1) by simp
    ultimately have "hd (join_sep ?N) \<noteq> CHR ''/''" using hdN(2) by metis
    then show "\<not> isAbsolute (join_sep ?N)"
      using ne by (cases "join_sep ?N") (simp_all add: isAbsolute_def)
    show "split_sep (join_sep ?N) = ?N"
      unfolding join_sep_def using segsN by (intro split_join) simp_all
  qed
  have abs_j: "isAbsolute (td @ ''/'' @ ?pkg) = isAbsolute td"
    using assms by (cases td) (simp_all add: isAbsolute_def)
  have pj: "path_join [td, ?pkg] = (if isAbsolute td then ''/'' else []) @ join_sep ?N"
    using assms joinN(1) abs_j split_j normN
    by (simp add: path_join_def join_sep_def[of "[td, ?pkg]"] path_normalize_def
        normalizeString_def Let_def)
  show ?thesis
  proof (cases "isAbsolute td")
    case True
    have sp: "split_sep (CHR ''/'' # join_sep ?N @ ''/'') = [] # ?N @ [[]]"
      using split_sep_append[of "[]" "join_sep ?N @ ''/''"] split_sep_append[of "join_sep ?N" "[]"]
        joinN(3) by (simp add: split_sep_def)
    have sptd: "split_sep (td @ ''/'') = split_sep td @ [[]]"
      using split_sep_append[of td "[]"] by (simp add: split_sep_def)
    have l: "fs_path c (path_join [td, ?pkg]) = norm_segs False ([] # ?N @ [[]])"
      using True sp by (simp add: pj fs_path_def isAbsolute_def)
    have r: "fs_path c td = norm_segs False (split_sep td @ [[]])"
      using True assms sptd by (simp add: fs_path_def)
    show ?thesis
      unfolding l r using norm_segs_under_root[OF pkg(1-3), of "split_sep td"] True by simp
  next
    case False
    have sp: "split_sep (pre @ ''/'' @ join_sep ?N @ ''/'') = split_sep pre @ ?N @ [[]]" for pre
      using split_sep_append[of pre "join_sep ?N @ ''/''"] split_sep_append[of "join_sep ?N" "[]"]
        joinN(3) by (simp add: split_sep_def)
    have sp0: "split_sep (join_sep ?N @ ''/'') = ?N @ [[]]"
      using split_sep_append[of "join_sep ?N" "[]"] joinN(3) by (simp add: split_sep_def)
    have sptd: "split_sep (pre @ ''/'' @ td @ ''/'') = split_sep pre @ split_sep td @ [[]]" for pre
      using split_sep_append[of pre "td @ ''/''"] split_sep_append[of td "[]"]
      by (simp add: split_sep_def)
    have sptd0: "split_sep (td @ ''/'') = split_sep td @ [[]]"
      using split_sep_append[of td "[]"] by (simp add: split_sep_def)
    note up = norm_segs_under_prefix[OF pkg(1-3), of _ _ "split_sep td"]
    show ?thesis
    proof (cases "c = []")
      case True
      then show ?thesis
        using False assms joinN(1,2) sp0 sptd0 up[of _ "[]"]
        by (simp add: pj fs_path_def)
    next
      case cne: False
      then show ?thesis
        using False assms joinN(1,2) sp[of c] sptd[of c] up[of _ "split_sep c"]
        by (simp add: pj fs_path_def)
    qed
  qed
qed

lemma manifest_path_eq:
  "td \<noteq> [] \<Longrightarrow> manifest_path w td = fs_path (cwd w) td @ [''package.json'']"
  by (simp add: manifest_path_def fs_path_manifest)

lemma target_path_resolve:
  assumes "isAbsolute (cwd w)"
  shows "target_path w p = path_resolve (cwd w) [cwd w, p]"
proof -
  have ne: "cwd w \<noteq> []" using assms by (auto simp: isAbsolute_def)
  define rp where "rp = fst (resolve_loop [p, cwd w] [])"
  have a: "resolve_loop [p, cwd w] [] = (rp, True)"
    using assms ne by (simp add: rp_def)
  have b: "resolve_loop [p, cwd w, cwd w] [] = (rp, True)"
    using assms ne by (simp add: rp_def)
  show ?thesis
    using a b by (simp add: target_path_def path_resolve_def fs_path_def normalizeString_def)
qed

section \<open>The claims\<close>

lemmas model_defs = run_cli_def program_action_def createApp_def copy_template_def
  patch_manifest_def install_dependencies_def report_done_def bind_def console_log_def
  resolve_io_def fs_copy_def fs_readJson_def fs_writeJson_def set_name_def lift_def
  process_chdir_def execAsync_def exit_code_def stripBom_def is_dir_def
  path_resolve_def path_join_def path_normalize_def path_basename_def fs_path_def
  normalizeString_def norm_segs_def norm_step_def split_sep_def join_sep_def isAbsolute_def
  JSON_stringify_def quote_def escape_char_def line_break_def hex_digit_def check_mark_def
  file_at_def dir_at_def new_events_def target_path_def template_path_def manifest_path_def
  transcript_def

lemmas demo_defs = bare_world_def demo_env_def demo_world_def demo_root_def demo_template_def
  demo_manifest_def demo_manifest_text_def

text \<open>
  Claim C1. The CLI action is specified to call the scaffolder with the raw project name
  first and the resolved absolute path second. The action in \<^verbatim>\<open>bin/index.ts\<close> passes them
  in the opposite order: invoked as \<^verbatim>\<open>create-sid-react-app demo\<close> in \<^verbatim>\<open>/work\<close>, the
  scaffolder receives \<^verbatim>\<open>/work/demo\<close> as its \<^verbatim>\<open>projectName\<close> and \<^verbatim>\<open>demo\<close> as its
  \<^verbatim>\<open>targetDir\<close>, which shows in the first line it prints.
\<close>

theorem cli_passes_resolved_path_as_project_name:
  "program_action (demo_env 0) ''demo'' demo_world
     = createApp (demo_env 0) ''/work/demo'' ''demo'' demo_world
   \<and> hd (events (snd (program_action (demo_env 0) ''demo'' demo_world)))
     = Print Cyan ([CHR 0x0A] @ ''Creating project: /work/demo'')"
  by (simp add: model_defs demo_defs Let_def)

text \<open>
  Claim C2. The manifest name is specified to be the base name of the resolved target
  directory for every project-name string. Because the scaffolder receives the raw
  argument as its \<^verbatim>\<open>targetDir\<close>, it takes the base name of the raw string: invoked with
  \<^verbatim>\<open>.\<close> in \<^verbatim>\<open>/work\<close>, the run succeeds and writes the name \<^verbatim>\<open>.\<close>, whereas the base
  name of the resolved target directory \<^verbatim>\<open>/work\<close> is \<^verbatim>\<open>work\<close>.
\<close>

theorem manifest_name_in_current_directory:
  "fst (run_cli (demo_env 0) ''.'' demo_world) = 0
   \<and> file_at (root (snd (run_cli (demo_env 0) ''.'' demo_world))) [''work'', ''package.json'']
     = Some (JSON_stringify (JObj [(''name'', JStr ''.''), (''version'', JStr ''0.0.0'')]) 2
             @ [CHR 0x0A])
   \<and> path_basename (path_resolve ''/work'' [''/work'', ''.'']) = ''work''"
  by (simp add: model_defs demo_defs Let_def)

text \<open>
  Claim C3. The completion message is specified to name the project-name string the user
  typed. Invoked with \<^verbatim>\<open>demo\<close> in \<^verbatim>\<open>/work\<close>, a successful run ends by printing
  \<^verbatim>\<open>cd /work/demo && npm run dev\<close>: the scaffolder's \<^verbatim>\<open>projectName\<close> parameter holds
  the resolved path.
\<close>

theorem completion_message_names_resolved_path:
  "fst (run_cli (demo_env 0) ''demo'' demo_world) = 0
   \<and> last (events (snd (run_cli (demo_env 0) ''demo'' demo_world)))
     = Print Bold ([CHR 0x0A] @ ''cd /work/demo && npm run dev'' @ [CHR 0x0A])"
  by (simp add: model_defs demo_defs Let_def)

text \<open>
  Claim C7. When nothing exists at the bundled template location, the scaffolder fails
  with \<^verbatim>\<open>ENOENT\<close> in the copy step; the only effect is the first progress line, the file
  system is unchanged, and the CLI exits with a non-zero code.
\<close>

theorem missing_template_fails_before_any_write:
  assumes "lookup (root w) (template_path rt w) = None"
  shows "createApp rt pn td w =
           (Inl ENOENT,
            w\<lparr>events := events w @ [Print Cyan ([CHR 0x0A] @ ''Creating project: '' @ pn)]\<rparr>)
         \<and> root (snd (createApp rt pn td w)) = root w
         \<and> fst (run_cli rt p w) = 1 \<and> root (snd (run_cli rt p w)) = root w"
proof -
  let ?w0 = "w\<lparr>events := events w @ [Print Cyan ([CHR 0x0A] @ ''Creating project: '' @ pn)]\<rparr>"
  have gen: "createApp rt a b w =
     (Inl ENOENT, w\<lparr>events := events w @ [Print Cyan ([CHR 0x0A] @ ''Creating project: '' @ a)]\<rparr>)"
    for a b
  proof -
    let ?v = "w\<lparr>events := events w @ [Print Cyan ([CHR 0x0A] @ ''Creating project: '' @ a)]\<rparr>"
    have "lookup (root ?v) (template_path rt ?v) = None"
      using assms by (simp add: template_path_def)
    from copy_template_absent[OF this] show ?thesis
      by (simp add: createApp_def bind_def console_log_def)
  qed
  show ?thesis
    by (simp add: gen run_cli_def program_action_def exit_code_def Let_def)
qed

theorem missing_template_witness:
  "lookup (root bare_world) (template_path (demo_env 0) bare_world) = None
   \<and> fst (run_cli (demo_env 0) ''demo'' bare_world) = 1
   \<and> root (snd (run_cli (demo_env 0) ''demo'' bare_world)) = Dir [(''work'', Dir [])]"
proof -
  have h: "lookup (root bare_world) (template_path (demo_env 0) bare_world) = None"
    by (simp add: model_defs demo_defs)
  from missing_template_fails_before_any_write[OF h, of "''/work/demo''" "''demo''" "''demo''"] h
  show ?thesis by (simp add: bare_world_def)
qed

text \<open>
  Claim C8. Whenever a run spawns a child process, that child runs in the target
  directory: the working directory was switched to it earlier in the run, it is not
  switched again afterwards, and it is still the working directory when the run ends.
\<close>

theorem install_runs_in_target_directory:
  assumes "createApp rt pn td w = (r, w')"
    and "new_events w w' = pre @ Spawn c d # post"
  shows "d = target_path w td \<and> cwd w' = target_path w td
         \<and> Chdir (target_path w td) \<in> set pre \<and> (\<forall>x. Chdir x \<notin> set post)
         \<and> (isAbsolute (cwd w) \<longrightarrow> target_path w td = path_resolve (cwd w) [cwd w, td])"
proof -
  let ?T = "transcript pn (target_path w td)"
  from createApp_events[OF assms(1)]
  consider (early) "cwd w' = cwd w" "new_events w w' = take 1 ?T \<or> new_events w w' = take 2 ?T"
    | (spawned) k where "cwd w' = target_path w td" "new_events w w' = take k ?T"
    by (auto simp: new_events_def) (metis take_all_iff order_refl)+
  then show ?thesis
  proof cases
    case early
    from early(2) assms(2)
    have "take 1 ?T = pre @ Spawn c d # post \<or> take 2 ?T = pre @ Spawn c d # post"
      by auto
    then have False
      using spawn_in_transcript[of 1 pn "target_path w td" pre c d post]
        spawn_in_transcript[of 2 pn "target_path w td" pre c d post]
      by auto
    then show ?thesis ..
  next
    case spawned
    with assms(2) spawn_in_transcript[of k pn "target_path w td" pre c d post]
      target_path_resolve[of w td]
    show ?thesis by auto
  qed
qed

theorem install_runs_in_target_directory_witness:
  "cwd (snd (createApp (demo_env 0) ''/work/demo'' ''demo'' demo_world)) = ''/work/demo''
   \<and> target_path demo_world ''demo'' = ''/work/demo''
   \<and> Spawn ''npm install'' ''/work/demo''
       \<in> set (new_events demo_world (snd (createApp (demo_env 0) ''/work/demo'' ''demo'' demo_world)))"
proof -
  define X where "X = createApp (demo_env 0) ''/work/demo'' ''demo'' demo_world"
  have h1: "createApp (demo_env 0) ''/work/demo'' ''demo'' demo_world = (fst X, snd X)"
    by (simp add: X_def)
  have h2: "new_events demo_world (snd X) =
      take 4 (transcript ''/work/demo'' ''/work/demo'')
        @ Spawn ''npm install'' ''/work/demo'' # drop 5 (transcript ''/work/demo'' ''/work/demo'')"
    by (simp add: X_def model_defs demo_defs Let_def)
  have t: "target_path demo_world ''demo'' = ''/work/demo''"
    by (simp add: model_defs demo_defs)
  from install_runs_in_target_directory[OF h1 h2] t h2 show ?thesis
    by (simp add: X_def)
qed

text \<open>
  Claim C9. The install step runs the constant command \<^verbatim>\<open>npm install\<close>: the scaffolder
  consults the child-process primitive at that command only, and every child it spawns
  was spawned with that command, whatever the arguments and the state.
\<close>

theorem install_command_is_constant:
  "createApp rt pn td w
     = createApp (rt\<lparr>child_process := (\<lambda>command. child_process rt ''npm install'')\<rparr>) pn td w
   \<and> (\<forall>c d. Spawn c d \<in> set (new_events w (snd (createApp rt pn td w)))
          \<longrightarrow> c = ''npm install'')"
proof (intro conjI allI impI)
  show "createApp rt pn td w
     = createApp (rt\<lparr>child_process := (\<lambda>command. child_process rt ''npm install'')\<rparr>) pn td w"
  proof -
    let ?rt = "rt\<lparr>child_process := (\<lambda>command. child_process rt ''npm install'')\<rparr>"
    have "fs_readJson ?rt path = fs_readJson rt path" for path
      by (auto simp: fs_readJson_def fun_eq_iff split: option.splits node.splits)
    then have "patch_manifest ?rt td = patch_manifest rt td"
      by (simp add: patch_manifest_def)
    moreover have "copy_template ?rt td = copy_template rt td"
      by (simp add: copy_template_def)
    moreover have "install_dependencies ?rt td = install_dependencies rt td"
      by (simp add: install_dependencies_def execAsync_def)
    ultimately show ?thesis
      by (simp add: createApp_def)
  qed
next
  fix c d
  assume "Spawn c d \<in> set (new_events w (snd (createApp rt pn td w)))"
  then obtain pre post where
    dec: "new_events w (snd (createApp rt pn td w)) = pre @ Spawn c d # post"
    by (auto simp: in_set_conv_decomp)
  have run: "createApp rt pn td w = (fst (createApp rt pn td w), snd (createApp rt pn td w))"
    by simp
  let ?T = "transcript pn (target_path w td)"
  from createApp_events[OF run]
  obtain k where "new_events w (snd (createApp rt pn td w)) = take k ?T"
    by (auto simp: new_events_def) (metis take_all_iff order_refl)
  with dec spawn_in_transcript[of k pn "target_path w td" pre c d post]
  show "c = ''npm install''" by simp
qed

theorem install_command_is_constant_witness:
  "Spawn ''npm install'' ''/work/demo''
     \<in> set (new_events demo_world (snd (createApp (demo_env 0) ''/work/demo'' ''demo'' demo_world)))
   \<and> new_events demo_world (snd (createApp (demo_env 0) ''/work/demo'' ''demo'' demo_world)) ! 4
     = Spawn ''npm install'' ''/work/demo''"
proof -
  have h: "new_events demo_world (snd (createApp (demo_env 0) ''/work/demo'' ''demo'' demo_world))
      = transcript ''/work/demo'' ''/work/demo''"
    by (simp add: model_defs demo_defs Let_def)
  have m: "Spawn ''npm install'' ''/work/demo''
     \<in> set (new_events demo_world (snd (createApp (demo_env 0) ''/work/demo'' ''demo'' demo_world)))"
    unfolding h by (simp add: transcript_def)
  from install_command_is_constant[of "demo_env 0" "''/work/demo''" "''demo''" demo_world] m h
  show ?thesis by (simp add: transcript_def)
qed

lemma copy_template_nonempty:
  "copy_template rt td w = (Inr (), w') \<Longrightarrow> td \<noteq> []"
  by (auto simp: copy_template_def bind_def resolve_io_def fs_copy_def Let_def
      split: if_splits option.splits)


text \<open>
  Claim C10. A successful copy step leaves, at every path where the template has a file,
  a file with the template's content, whatever was there before, and leaves every path
  the template does not have exactly as it was. The manifest that the patch step reads
  next is the one at \<^verbatim>\<open>package.json\<close> directly under the target directory, so it is the
  template's manifest and not one that was there before.
\<close>

theorem copy_overwrites_and_merges:
  assumes "copy_template rt td w = (Inr (), w')"
    and "lookup (root w) (template_path rt w) = Some tpl"
    and "wf_node tpl"
  shows "(\<forall>r c. file_at tpl r = Some c \<longrightarrow>
            file_at (root w') (fs_path (cwd w) td @ r) = Some c)
       \<and> (\<forall>r. lookup tpl r = None \<longrightarrow>
            lookup (root w') (fs_path (cwd w) td @ r) = lookup (root w) (fs_path (cwd w) td @ r))
       \<and> manifest_path w' td = fs_path (cwd w) td @ [''package.json'']
       \<and> (\<forall>c. file_at tpl [''package.json''] = Some c \<longrightarrow>
            file_at (root w') (manifest_path w' td) = Some c)"
proof -
  have cw: "cwd w' = cwd w" using copy_template_events[OF assms(1)] by simp
  have mp: "manifest_path w' td = fs_path (cwd w) td @ [''package.json'']"
    using manifest_path_eq[OF copy_template_nonempty[OF assms(1)], of w'] cw by simp
  show ?thesis
    using copy_template_files[OF assms] mp by simp
qed

theorem copy_overwrites_and_merges_witness:
  "file_at (root demo_world) [''work'', ''demo'', ''package.json''] = Some ''old''
   \<and> file_at (root (snd (copy_template (demo_env 0) ''demo'' demo_world)))
        [''work'', ''demo'', ''package.json'']
     = Some demo_manifest_text
   \<and> lookup (root (snd (copy_template (demo_env 0) ''demo'' demo_world)))
        [''work'', ''demo'', ''notes.txt'']
     = Some (File ''keep me'')"
proof -
  define X where "X = copy_template (demo_env 0) ''demo'' demo_world"
  have "fst X = Inr ()"
    by (simp add: X_def model_defs demo_defs Let_def)
  then have h1: "copy_template (demo_env 0) ''demo'' demo_world = (Inr (), snd X)"
    by (simp add: X_def prod_eq_iff)
  have h2: "lookup (root demo_world) (template_path (demo_env 0) demo_world) = Some demo_template"
    by (simp add: model_defs demo_env_def demo_world_def demo_root_def)
  have h3: "wf_node demo_template"
    by (simp add: demo_template_def)
  have d: "fs_path (cwd demo_world) ''demo'' = [''work'', ''demo'']"
    by (simp add: model_defs demo_defs)
  have f: "file_at demo_template [''package.json''] = Some demo_manifest_text"
    "lookup demo_template [''notes.txt''] = None"
    by (simp_all add: file_at_def demo_template_def)
  have old: "file_at (root demo_world) [''work'', ''demo'', ''package.json''] = Some ''old''"
    "lookup (root demo_world) [''work'', ''demo'', ''notes.txt''] = Some (File ''keep me'')"
    by (simp_all add: file_at_def demo_world_def demo_root_def)
  from copy_overwrites_and_merges[OF h1 h2 h3] have
    a: "\<And>r c. file_at demo_template r = Some c \<Longrightarrow>
           file_at (root (snd X)) (fs_path (cwd demo_world) ''demo'' @ r) = Some c"
    and b: "\<And>r. lookup demo_template r = None \<Longrightarrow>
           lookup (root (snd X)) (fs_path (cwd demo_world) ''demo'' @ r)
             = lookup (root demo_world) (fs_path (cwd demo_world) ''demo'' @ r)"
    by blast+
  from a[OF f(1)] b[OF f(2)] old show ?thesis
    by (simp add: d X_def)
qed

lemma preserves_filesD:
  assumes "preserves_files rt"
  shows "dir_at t p \<Longrightarrow> dir_at (snd (child_process rt command dir t)) p"
    and "file_at t p = Some c \<Longrightarrow> file_at (snd (child_process rt command dir t)) p = Some c"
  using assms by (simp_all add: preserves_files_def)

lemma createApp_files:
  assumes run: "createApp rt pn td w = (r, w')"
    and res: "r = Inr () \<or> r = Inl (ExecError n)"
    and tpl: "lookup (root w) (template_path rt w) = Some tpl"
    and wf: "wf_node tpl"
    and pres: "preserves_files rt"
  shows "dir_at (root w') (fs_path (cwd w) td)
     \<and> (\<forall>q c. file_at tpl q = Some c \<longrightarrow> file_at (root w') (fs_path (cwd w) td @ q) \<noteq> None)
     \<and> (\<forall>q c. file_at tpl q = Some c \<longrightarrow> q \<noteq> [''package.json''] \<longrightarrow>
           file_at (root w') (fs_path (cwd w) td @ q) = Some c)
     \<and> (\<forall>q. dir_at tpl q \<longrightarrow> dir_at (root w') (fs_path (cwd w) td @ q))
     \<and> (\<exists>content obj obj'.
           JSON_parse rt (stripBom content) = Some obj
         \<and> set_name obj (path_basename td) = Inr obj'
         \<and> file_at (root w') (fs_path (cwd w) td @ [''package.json''])
             = Some (JSON_stringify obj' 2 @ [CHR 0x0A])
         \<and> (\<forall>c. file_at tpl [''package.json''] = Some c \<longrightarrow> content = c))
     \<and> (r = Inr () \<or> n \<noteq> 0)"
proof -
  let ?D = "fs_path (cwd w) td"
  let ?pkg = "''package.json''"
  from createApp_stages[OF run res tpl] obtain w0 w1 w2 where
    w0: "root w0 = root w" "cwd w0 = cwd w"
    and c1: "copy_template rt td w0 = (Inr (), w1)" and cw1: "cwd w1 = cwd w"
    and c2: "patch_manifest rt td w1 = (Inr (), w2)" and cw2: "cwd w2 = cwd w"
    and dir2: "dir_at (root w2) ?D"
    and rw: "root w' = snd (child_process rt ''npm install'' (target_path w td) (root w2))"
    and ok: "r = Inr () \<longleftrightarrow> fst (child_process rt ''npm install'' (target_path w td) (root w2)) = 0"
    and st: "r = Inl (ExecError n) \<Longrightarrow>
       n = fst (child_process rt ''npm install'' (target_path w td) (root w2))"
    by blast
  have tpl0: "lookup (root w0) (template_path rt w0) = Some tpl"
    using tpl w0 by (simp add: template_path_def)
  note cf = copy_template_files[OF c1 tpl0 wf, unfolded w0]
  note cd = copy_template_dirs[OF c1 tpl0 wf, unfolded w0]
  have mp: "manifest_path w1 td = ?D @ [?pkg]"
    using manifest_path_eq[OF copy_template_nonempty[OF c1], of w1] cw1 by simp
  have pr: "Inr () = Inr () \<or> Inr () = Inl (ExecError n)" by simp
  note pk = patch_manifest_keeps[OF c2 pr]
  from patch_manifest_effect[OF c2 pr] obtain content obj obj' where
    rd: "file_at (root w1) (?D @ [?pkg]) = Some content"
    and ps: "JSON_parse rt (stripBom content) = Some obj"
    and sn: "set_name obj (path_basename td) = Inr obj'"
    and wr: "write_at (?D @ [?pkg]) (JSON_stringify obj' 2 @ [CHR 0x0A]) (root w1) = Inr (root w2)"
    unfolding mp by blast
  have man2: "file_at (root w2) (?D @ [?pkg]) = Some (JSON_stringify obj' 2 @ [CHR 0x0A])"
    using write_at_effect[OF wr, of "?D @ [?pkg]"] by simp
  have g1: "dir_at (root w') ?D"
    unfolding rw by (rule preserves_filesD(1)[OF pres dir2])
  have g2: "file_at (root w') (?D @ q) \<noteq> None" if "file_at tpl q = Some c" for q c
  proof -
    from cf(1)[OF that] have "file_at (root w1) (?D @ q) \<noteq> None" by simp
    from pk(2)[OF this] obtain c' where "file_at (root w2) (?D @ q) = Some c'" by auto
    from preserves_filesD(2)[OF pres this] show ?thesis unfolding rw by simp
  qed
  have g3: "file_at (root w') (?D @ q) = Some c"
    if "file_at tpl q = Some c" and "q \<noteq> [?pkg]" for q c
  proof -
    from that(2) have "?D @ q \<noteq> manifest_path w1 td" unfolding mp by simp
    from pk(3)[OF this] cf(1)[OF that(1)] have "file_at (root w2) (?D @ q) = Some c" by simp
    from preserves_filesD(2)[OF pres this] show ?thesis unfolding rw .
  qed
  have g4: "dir_at (root w') (?D @ q)" if "dir_at tpl q" for q
  proof -
    from cd[OF that] pk(1)[of "?D @ q"] have "dir_at (root w2) (?D @ q)" by simp
    from preserves_filesD(1)[OF pres this] show ?thesis unfolding rw .
  qed
  have g5: "\<exists>content obj obj'.
           JSON_parse rt (stripBom content) = Some obj
         \<and> set_name obj (path_basename td) = Inr obj'
         \<and> file_at (root w') (?D @ [?pkg]) = Some (JSON_stringify obj' 2 @ [CHR 0x0A])
         \<and> (\<forall>c. file_at tpl [?pkg] = Some c \<longrightarrow> content = c)"
  proof -
    have "file_at (root w') (?D @ [?pkg]) = Some (JSON_stringify obj' 2 @ [CHR 0x0A])"
      unfolding rw by (rule preserves_filesD(2)[OF pres man2])
    moreover have "\<forall>c. file_at tpl [?pkg] = Some c \<longrightarrow> content = c"
      using cf(1)[of "[?pkg]"] rd by auto
    ultimately show ?thesis using ps sn by blast
  qed
  have g6: "r = Inr () \<or> n \<noteq> 0"
    using res ok st by auto
  show ?thesis using g1 g2 g3 g4 g5 g6 by blast
qed

text \<open>
  Claim C4. After a successful run, the directory the project name resolves to exists and
  holds the whole template: every template directory is a directory there, every template
  file is a file there, with the template's content for every file but the patched
  manifest. For a name with no separator other than the empty name, \<^verbatim>\<open>.\<close> and \<^verbatim>\<open>..\<close>,
  that directory is the entry of that name in the invocation directory. The install
  child is assumed to leave existing files and directories in place.
\<close>

theorem scaffold_creates_project_directory:
  assumes "run_cli rt projectName w = (0, w')"
    and "lookup (root w) (template_path rt w) = Some tpl"
    and "wf_node tpl"
    and "preserves_files rt"
  shows "dir_at (root w') (fs_path (cwd w) projectName)
     \<and> (\<forall>q c. file_at tpl q = Some c \<longrightarrow>
           file_at (root w') (fs_path (cwd w) projectName @ q) \<noteq> None)
     \<and> (\<forall>q c. file_at tpl q = Some c \<longrightarrow> q \<noteq> [''package.json''] \<longrightarrow>
           file_at (root w') (fs_path (cwd w) projectName @ q) = Some c)
     \<and> (\<forall>q. dir_at tpl q \<longrightarrow> dir_at (root w') (fs_path (cwd w) projectName @ q))
     \<and> (CHR ''/'' \<notin> set projectName \<and> projectName \<noteq> [] \<and> projectName \<noteq> ''.''
          \<and> projectName \<noteq> ''..''
        \<longrightarrow> fs_path (cwd w) projectName = fs_path (cwd w) ''.'' @ [projectName])"
proof -
  obtain r where pa: "program_action rt projectName w = (r, w')" and ec: "exit_code r = 0"
    using assms(1) by (auto simp: run_cli_def split: prod.splits)
  from ec have r: "r = Inr ()"
    by (cases r) (simp_all add: exit_code_def)
  from pa r have run: "createApp rt (path_resolve (cwd w) [cwd w, projectName]) projectName w
      = (Inr (), w')"
    by (simp add: program_action_def Let_def)
  have res: "Inr () = Inr () \<or> Inr () = Inl (ExecError 0)" by simp
  from createApp_files[OF run res assms(2-4)] fs_path_simple[of projectName "cwd w"]
  show ?thesis by simp
qed

theorem scaffold_creates_project_directory_witness:
  "fst (run_cli (demo_env 0) ''fresh'' demo_world) = 0
   \<and> fs_path (cwd demo_world) ''.'' @ [''fresh''] = [''work'', ''fresh'']
   \<and> dir_at (root (snd (run_cli (demo_env 0) ''fresh'' demo_world))) [''work'', ''fresh'']
   \<and> file_at (root (snd (run_cli (demo_env 0) ''fresh'' demo_world)))
        [''work'', ''fresh'', ''src'', ''main.tsx'']
      = Some ''render()''"
proof -
  define X where "X = run_cli (demo_env 0) ''fresh'' demo_world"
  have x: "fst X = 0"
    by (simp add: X_def model_defs demo_defs Let_def)
  then have h1: "run_cli (demo_env 0) ''fresh'' demo_world = (0, snd X)"
    by (simp add: X_def prod_eq_iff)
  have h2: "lookup (root demo_world) (template_path (demo_env 0) demo_world) = Some demo_template"
    by (simp add: model_defs demo_env_def demo_world_def demo_root_def)
  have h3: "wf_node demo_template"
    by (simp add: demo_template_def)
  have h4: "preserves_files (demo_env 0)"
    by (simp add: preserves_files_def demo_env_def)
  have d: "fs_path (cwd demo_world) ''fresh'' = [''work'', ''fresh'']"
    "fs_path (cwd demo_world) ''.'' = [''work'']"
    by (simp_all add: model_defs demo_defs)
  have f: "file_at demo_template [''src'', ''main.tsx''] = Some ''render()''"
    by (simp add: file_at_def demo_template_def)
  from scaffold_creates_project_directory[OF h1 h2 h3 h4] have
    a: "dir_at (root (snd X)) (fs_path (cwd demo_world) ''fresh'')"
    and b: "\<And>q c. file_at demo_template q = Some c \<Longrightarrow> q \<noteq> [''package.json''] \<Longrightarrow>
           file_at (root (snd X)) (fs_path (cwd demo_world) ''fresh'' @ q) = Some c"
    by blast+
  from a b[OF f] x show ?thesis
    by (simp add: d X_def)
qed












end
